theory Spec2Isabelle
  imports Main "HOL-Library.Word"
begin

unbundle bit_operations_syntax

chapter \<open>The program\<close>

section \<open>Machine types and errno values\<close>

type_synonym u8 = "8 word"

type_synonym u16 = "16 word"

type_synonym u32 = "32 word"

text \<open>An \<open>int8_t\<close> return value: a byte read as two's complement (\<open>sint\<close>).\<close>

type_synonym int8 = "8 word"

text \<open>A C pointer to an object outside the event pool; \<open>0\<close> is \<open>NULL\<close>.\<close>

type_synonym addr = nat

text \<open>The values of \<open>errno.h\<close> the firmware returns negated.\<close>

definition ENOENT :: int8 where "ENOENT = 2"

definition ENOMEM :: int8 where "ENOMEM = 12"

definition EINVAL :: int8 where "EINVAL = 22"

section \<open>The event pool and queue\<close>

text \<open>
  \<open>struct event\<close>. The \<open>next\<close> pointer always points into \<open>events_storage\<close>, so it is
  a slot index, \<open>None\<close> for \<open>NULL\<close>. \<open>union event_val\<close> holds a 32-bit scalar or a pointer
  and is read as the scalar.
\<close>

record event =
  ev_next :: "nat option"
  ev_source :: addr
  ev_id :: u8
  ev_val :: u32

definition MAX_PENDING_EVENTS :: nat where "MAX_PENDING_EVENTS = 8"

text \<open>The three statics \<open>events\<close>, \<open>events_tail\<close> and \<open>events_storage\<close>.\<close>

record event_queue =
  events :: "nat option"
  events_tail :: "nat option"
  events_storage :: "event list"

text \<open>
  The statics are zero-initialised: every slot is free (its source is \<open>NULL\<close>) and the
  queue is empty.
\<close>

definition free_slot :: event where
  "free_slot = \<lparr>ev_next = None, ev_source = 0, ev_id = 0, ev_val = 0\<rparr>"

definition queue_init :: event_queue where
  "queue_init = \<lparr>events = None, events_tail = None,
                 events_storage = replicate MAX_PENDING_EVENTS free_slot\<rparr>"

text \<open>
  \<open>event_add\<close>: the \<open>for\<close> loop is the search for the first slot whose source is
  \<open>NULL\<close>; the slot is filled and linked at the tail.
\<close>

definition event_add :: "addr \<Rightarrow> u8 \<Rightarrow> u32 \<Rightarrow> event_queue \<Rightarrow> int8 \<times> event_queue" where
  "event_add source id' val q =
    (if source = 0 then (- EINVAL, q)
     else
       case find (\<lambda>i. ev_source (events_storage q ! i) = 0) [0..<MAX_PENDING_EVENTS] of
         None \<Rightarrow> (- ENOMEM, q)
       | Some ev \<Rightarrow>
           let st = (events_storage q)
                 [ev := \<lparr>ev_next = None, ev_source = source, ev_id = id', ev_val = val\<rparr>]
           in (0,
               case events_tail q of
                 Some t \<Rightarrow>
                   q\<lparr>events_tail := Some ev,
                     events_storage := st[t := (st ! t)\<lparr>ev_next := Some ev\<rparr>]\<rparr>
               | None \<Rightarrow>
                   q\<lparr>events := Some ev, events_tail := Some ev, events_storage := st\<rparr>))"

text \<open>
  The loop of \<open>event_remove\<close>, with the loop variables \<open>ev\<close> and \<open>prev\<close> as arguments.
  It follows the \<open>next\<close> pointers, so on a cyclic list it does not return: the value
  is then \<open>None\<close>.
\<close>

partial_function (option) event_remove_loop ::
  "addr \<Rightarrow> u8 \<Rightarrow> nat option \<Rightarrow> nat option \<Rightarrow> event_queue \<Rightarrow> event_queue option" where
  "event_remove_loop source id' ev prev q =
    (case ev of
       None \<Rightarrow> Some q
     | Some e \<Rightarrow>
         let next = ev_next (events_storage q ! e) in
         if ev_source (events_storage q ! e) \<noteq> source \<or> ev_id (events_storage q ! e) \<noteq> id'
         then event_remove_loop source id' next (Some e) q
         else
           let q1 = (case prev of
                       Some p \<Rightarrow>
                         q\<lparr>events_storage :=
                             (events_storage q)[p := (events_storage q ! p)\<lparr>ev_next := next\<rparr>]\<rparr>
                     | None \<Rightarrow> q\<lparr>events := next\<rparr>);
               q2 = (if next = None then q1\<lparr>events_tail := prev\<rparr> else q1);
               q3 = q2\<lparr>events_storage :=
                         (events_storage q2)
                           [e := (events_storage q2 ! e)\<lparr>ev_next := None, ev_source := 0\<rparr>]\<rparr>
           in event_remove_loop source id' next prev q3)"

declare event_remove_loop.simps [code]

text \<open>\<open>event_remove\<close>: the test of the source, then the loop from the head of the queue.\<close>

definition event_remove :: "addr \<Rightarrow> u8 \<Rightarrow> event_queue \<Rightarrow> (int8 \<times> event_queue) option" where
  "event_remove source id' q =
    (if source = 0 then Some (- EINVAL, q)
     else map_option (Pair 0) (event_remove_loop source id' (events q) None q))"

section \<open>The handler registry and the dispatch loop\<close>

text \<open>
  \<open>struct event_handler\<close> is declared in \<open>event-queue.h\<close>; its fields are taken as the
  source uses them, \<open>mask\<close> and \<open>id\<close> with the width of the event id. The handler objects
  belong to their callers: \<open>hmem\<close> is the memory that holds them, by address, and
  \<open>handlers\<close> is the head of the list.
\<close>

record event_handler =
  h_next :: addr
  h_source :: addr
  h_mask :: u8
  h_id :: u8
  h_handler :: addr
  h_context :: addr

record handler_registry =
  handlers :: addr
  hmem :: "addr \<Rightarrow> event_handler"

text \<open>\<open>event_handler_add\<close> links the handler object at \<open>hdlr\<close> in front of the list.\<close>

definition event_handler_add :: "addr \<Rightarrow> handler_registry \<Rightarrow> int8 \<times> handler_registry" where
  "event_handler_add hdlr r =
    (if hdlr = 0 \<or> h_source (hmem r hdlr) = 0 \<or> h_handler (hmem r hdlr) = 0
     then (- EINVAL, r)
     else (0, r\<lparr>hmem := (hmem r)(hdlr := (hmem r hdlr)\<lparr>h_next := handlers r\<rparr>),
               handlers := hdlr\<rparr>))"

text \<open>
  A call \<open>hdlr->handler(ev->id, ev->val, hdlr->context)\<close>: the function called and its
  three arguments. The handler bodies are not part of the dispatcher; a run of the
  dispatcher is described by the calls it makes, in order.
\<close>

datatype handler_call = Handler_call addr u8 u32 addr

text \<open>
  The loop of \<open>event_run_handlers\<close> from the handler \<open>hdlr\<close> on; \<open>calls\<close> are the calls
  made so far. On a cyclic list it does not return.
\<close>

partial_function (option) event_run_handlers_loop ::
  "(addr \<Rightarrow> event_handler) \<Rightarrow> event \<Rightarrow> addr \<Rightarrow> handler_call list \<Rightarrow> handler_call list option"
  where
  "event_run_handlers_loop mem ev hdlr calls =
    (if hdlr = 0 then Some calls
     else if h_source (mem hdlr) \<noteq> ev_source ev
       then event_run_handlers_loop mem ev (h_next (mem hdlr)) calls
     else if h_mask (mem hdlr) \<noteq> 0 \<and> (ev_id ev AND h_mask (mem hdlr)) \<noteq> h_id (mem hdlr)
       then event_run_handlers_loop mem ev (h_next (mem hdlr)) calls
     else event_run_handlers_loop mem ev (h_next (mem hdlr))
            (calls @ [Handler_call (h_handler (mem hdlr)) (ev_id ev) (ev_val ev)
                        (h_context (mem hdlr))]))"

declare event_run_handlers_loop.simps [code]

definition event_run_handlers ::
  "handler_registry \<Rightarrow> event \<Rightarrow> handler_call list \<Rightarrow> handler_call list option" where
  "event_run_handlers r ev calls = event_run_handlers_loop (hmem r) ev (handlers r) calls"

text \<open>
  The state that the event loop works on: the queue, the registry and the calls made to
  handlers so far. The handlers themselves are outside the model, so nothing but the
  loop changes the queue between two rounds.
\<close>

record system =
  evq :: event_queue
  registry :: handler_registry
  calls :: "handler_call list"

text \<open>
  \<open>event_loop_run_once\<close> detaches the head of the queue, runs the handlers on it and then
  frees its slot.
\<close>

definition event_loop_run_once :: "system \<Rightarrow> system option" where
  "event_loop_run_once s =
    (case events (evq s) of
       None \<Rightarrow> Some s
     | Some ev \<Rightarrow>
         let q = evq s;
             q1 = q\<lparr>events := ev_next (events_storage q ! ev)\<rparr>;
             q2 = (if events q1 = None then q1\<lparr>events_tail := None\<rparr> else q1);
             q3 = q2\<lparr>events_storage :=
                      (events_storage q2)[ev := (events_storage q2 ! ev)\<lparr>ev_next := None\<rparr>]\<rparr>
         in case event_run_handlers (registry s) (events_storage q3 ! ev) (calls s) of
              None \<Rightarrow> None
            | Some cs \<Rightarrow>
                Some (s\<lparr>evq := q3\<lparr>events_storage :=
                                   (events_storage q3)
                                     [ev := (events_storage q3 ! ev)\<lparr>ev_source := 0\<rparr>]\<rparr>,
                        calls := cs\<rparr>))"

text \<open>
  \<open>event_loop_run\<close> is \<open>while (1) { event_loop_run_once(); sleep_if(!events); }\<close>:
  \<open>event_loop_run_n n\<close> is its first \<open>n\<close> rounds.
\<close>

fun event_loop_run_n :: "nat \<Rightarrow> system \<Rightarrow> system option" where
  "event_loop_run_n 0 s = Some s"
| "event_loop_run_n (Suc n) s =
     (case event_loop_run_once s of None \<Rightarrow> None | Some s' \<Rightarrow> event_loop_run_n n s')"

section \<open>The door controller\<close>

text \<open>
  The constants of \<open>door-controller.h\<close> and \<open>wiegand-reader.h\<close> that the controller
  uses: event codes, key codes and credential types. The headers are not among the
  sources, so the values are parameters.
\<close>

record header_consts =
  DOOR_CTRL_EVENT_STATE_CHANGED :: u8
  DOOR_CTRL_EVENT_BUZZER_FINISHED :: u8
  DOOR_CTRL_EVENT_IDLE_TIMEOUT :: u8
  WIEGAND_READER_ERROR :: u8
  WIEGAND_READER_EVENT_KEY :: u8
  WIEGAND_READER_EVENT_CARD :: u8
  WIEGAND_KEY_ENTER :: u8
  WIEGAND_KEY_ESC :: u8
  DOOR_CTRL_PIN :: u8
  DOOR_CTRL_CARD :: u8
  DOOR_CTRL_CARD_AND_PIN :: u8

text \<open>The case labels of the first \<open>switch\<close> of \<open>on_event\<close>; C requires them distinct.\<close>

definition case_labels_distinct :: "header_consts \<Rightarrow> bool" where
  "case_labels_distinct c =
     distinct [DOOR_CTRL_EVENT_STATE_CHANGED c, DOOR_CTRL_EVENT_BUZZER_FINISHED c,
               DOOR_CTRL_EVENT_IDLE_TIMEOUT c, WIEGAND_READER_ERROR c,
               WIEGAND_READER_EVENT_KEY c, WIEGAND_READER_EVENT_CARD c]"

definition IDLE_TIMEOUT :: u16 where "IDLE_TIMEOUT = 10000"

definition BUZZER_ERROR_DURATION :: u16 where "BUZZER_ERROR_DURATION = 400"

definition DOOR_OPEN_FROM_READER :: u8 where "DOOR_OPEN_FROM_READER = 0"

definition DOOR_OPEN_FROM_BUTTON :: u8 where "DOOR_OPEN_FROM_BUTTON = 1"

definition buzzer_rejected_seq :: "u16 list" where
  "buzzer_rejected_seq = [0, 200, 600, 200, 600, 200, 600]"

definition buzzer_timeout_seq :: "u16 list" where
  "buzzer_timeout_seq = [0, 100, 200, 100, 200, 100, 200]"

definition buzzer_accepted_seq :: "u16 list" where
  "buzzer_accepted_seq = [0, 100, 200]"

text \<open>Modelled from the spec: the macro \<open>BIT\<close> of \<open>utils.h\<close>, the mask of one bit.\<close>

definition BIT :: "u8 \<Rightarrow> u8" where
  "BIT n = push_bit (unat n) 1"

text \<open>\<open>enum door_state\<close>, in the order of \<open>state_names\<close>.\<close>

datatype door_state =
  DOOR_CTRL_IDLE | DOOR_CTRL_READING_PIN | DOOR_CTRL_OPENING |
  DOOR_CTRL_REJECTED | DOOR_CTRL_TIMEOUT | DOOR_CTRL_ERROR

text \<open>
  The timer and trigger drivers are external. A call on the controller's idle timer or
  on one of its three triggers is recorded, in order, in \<open>driver_calls\<close>.
\<close>

datatype trigger = Open_trigger | Led_trigger | Buzzer_trigger

datatype driver_call =
    Timer_deschedule
  | Timer_schedule_in u16
  | Trigger_set trigger u8
  | Trigger_start trigger u16
  | Trigger_start_seq trigger "u16 list"

text \<open>
  \<open>struct door_ctrl\<close>. \<open>check_key\<close> is the callback, \<open>None\<close> when the pointer is
  \<open>NULL\<close>; \<open>wr\<close> is the address \<open>&dc->wr\<close> of the embedded reader, the source of the
  controller's events. The header that declares the struct is not among the sources:
  \<open>pin\<close> has the type of the key that the validator gets, \<open>open_status\<close> that of the
  local \<open>old_status\<close>.
\<close>

record door_ctrl =
  door_id :: u8
  open_time :: u16
  state :: door_state
  pin :: u32
  open_status :: u8
  check_key :: "(u8 \<Rightarrow> u8 \<Rightarrow> u32 \<Rightarrow> addr \<Rightarrow> int8) option"
  check_context :: addr
  wr :: addr
  driver_calls :: "driver_call list"

definition call_driver :: "driver_call \<Rightarrow> door_ctrl \<Rightarrow> door_ctrl" where
  "call_driver a dc = dc\<lparr>driver_calls := driver_calls dc @ [a]\<rparr>"

text \<open>
  \<open>door_ctrl_set_state\<close>, built without \<open>DEBUG\<close>. The result of \<open>event_remove\<close> is
  not looked at.
\<close>

definition door_ctrl_set_state ::
  "header_consts \<Rightarrow> door_state \<Rightarrow> door_ctrl \<times> event_queue \<Rightarrow> (door_ctrl \<times> event_queue) option"
  where
  "door_ctrl_set_state c new_state w =
    (case w of (dc, q) \<Rightarrow>
       if state dc = new_state then Some (dc, q)
       else
         let dc1 = dc\<lparr>state := new_state\<rparr> in
         if new_state = DOOR_CTRL_IDLE \<or> new_state = DOOR_CTRL_REJECTED \<or>
            new_state = DOOR_CTRL_OPENING \<or> new_state = DOOR_CTRL_ERROR
         then
           case event_remove (wr dc1) (DOOR_CTRL_EVENT_IDLE_TIMEOUT c) q of
             None \<Rightarrow> None
           | Some (ret, q') \<Rightarrow> Some (call_driver Timer_deschedule dc1, q')
         else Some (dc1, q))"

text \<open>\<open>door_ctrl_check_key\<close>: without validator the check fails with \<open>-ENOENT\<close>.\<close>

definition door_ctrl_check_key :: "door_ctrl \<Rightarrow> u8 \<Rightarrow> u32 \<Rightarrow> int8" where
  "door_ctrl_check_key dc type key =
    (case check_key dc of
       None \<Rightarrow> - ENOENT
     | Some f \<Rightarrow> f (door_id dc) type key (check_context dc))"

text \<open>
  \<open>door_ctrl_set_open\<close>: the bit of \<open>source\<close> is set or cleared, and the triggers are
  called when \<open>!old_status\<close> and \<open>!dc->open_status\<close> differ.
\<close>

definition door_ctrl_set_open :: "u8 \<Rightarrow> u8 \<Rightarrow> door_ctrl \<Rightarrow> door_ctrl" where
  "door_ctrl_set_open source status dc =
    (let old_status = open_status dc;
         dc1 = (if status \<noteq> 0 then dc\<lparr>open_status := open_status dc OR BIT source\<rparr>
                else dc\<lparr>open_status := open_status dc AND NOT (BIT source)\<rparr>)
     in if (old_status = 0) = (open_status dc1 = 0) then dc1
        else if open_status dc1 \<noteq> 0
          then call_driver (Trigger_set Led_trigger 1) (call_driver (Trigger_set Open_trigger 1) dc1)
          else call_driver (Trigger_start Led_trigger (open_time dc1))
                 (call_driver (Trigger_start Open_trigger (open_time dc1)) dc1))"

text \<open>The four ways into a settle state: the state change, then the feedback.\<close>

definition door_ctrl_open ::
  "header_consts \<Rightarrow> door_ctrl \<times> event_queue \<Rightarrow> (door_ctrl \<times> event_queue) option" where
  "door_ctrl_open c w =
    (case door_ctrl_set_state c DOOR_CTRL_OPENING w of
       None \<Rightarrow> None
     | Some (dc, q) \<Rightarrow>
         Some (call_driver (Trigger_start_seq Buzzer_trigger buzzer_accepted_seq)
                 (door_ctrl_set_open DOOR_OPEN_FROM_READER 0
                    (door_ctrl_set_open DOOR_OPEN_FROM_READER 1 dc)), q))"

definition door_ctrl_reject ::
  "header_consts \<Rightarrow> door_ctrl \<times> event_queue \<Rightarrow> (door_ctrl \<times> event_queue) option" where
  "door_ctrl_reject c w =
    (case door_ctrl_set_state c DOOR_CTRL_REJECTED w of
       None \<Rightarrow> None
     | Some (dc, q) \<Rightarrow>
         Some (call_driver (Trigger_start_seq Buzzer_trigger buzzer_rejected_seq) dc, q))"

definition door_ctrl_timeout ::
  "header_consts \<Rightarrow> door_ctrl \<times> event_queue \<Rightarrow> (door_ctrl \<times> event_queue) option" where
  "door_ctrl_timeout c w =
    (case door_ctrl_set_state c DOOR_CTRL_TIMEOUT w of
       None \<Rightarrow> None
     | Some (dc, q) \<Rightarrow>
         Some (call_driver (Trigger_start_seq Buzzer_trigger buzzer_timeout_seq) dc, q))"

definition door_ctrl_error ::
  "header_consts \<Rightarrow> door_ctrl \<times> event_queue \<Rightarrow> (door_ctrl \<times> event_queue) option" where
  "door_ctrl_error c w =
    (case door_ctrl_set_state c DOOR_CTRL_ERROR w of
       None \<Rightarrow> None
     | Some (dc, q) \<Rightarrow>
         Some (call_driver (Trigger_start Buzzer_trigger BUZZER_ERROR_DURATION) dc, q))"

text \<open>
  \<open>on_event\<close>, built without \<open>DEBUG\<close> (\<open>door_ctrl_show_state\<close> is then empty). The first
  \<open>switch\<close> is the chain of tests on \<open>event\<close>, the second the case distinction on the
  state. \<open>val\<close> is \<open>val.u\<close>; the local \<open>key\<close> is a \<open>uint8_t\<close>, so in \<open>READING_PIN\<close> only
  the low byte of the value is looked at.
\<close>

definition on_event ::
  "header_consts \<Rightarrow> u8 \<Rightarrow> u32 \<Rightarrow> door_ctrl \<times> event_queue \<Rightarrow> (door_ctrl \<times> event_queue) option"
  where
  "on_event c event val w =
    (if event = DOOR_CTRL_EVENT_STATE_CHANGED c then Some w
     else if event = DOOR_CTRL_EVENT_BUZZER_FINISHED c then door_ctrl_set_state c DOOR_CTRL_IDLE w
     else if event = DOOR_CTRL_EVENT_IDLE_TIMEOUT c then door_ctrl_timeout c w
     else if event = WIEGAND_READER_ERROR c then door_ctrl_error c w
     else if event \<noteq> WIEGAND_READER_EVENT_KEY c \<and> event \<noteq> WIEGAND_READER_EVENT_CARD c
       then door_ctrl_error c w
     else
       case w of (dc, q) \<Rightarrow>
         case state dc of
           DOOR_CTRL_IDLE \<Rightarrow>
             if event = WIEGAND_READER_EVENT_KEY c then
               if val = ucast (WIEGAND_KEY_ENTER c) then door_ctrl_error c (dc, q)
               else if val = ucast (WIEGAND_KEY_ESC c) then Some (dc, q)
               else
                 case door_ctrl_set_state c DOOR_CTRL_READING_PIN
                        (dc\<lparr>pin := (- 1 AND NOT 0xF) OR (val AND 0xF)\<rparr>, q) of
                   None \<Rightarrow> None
                 | Some (dc', q') \<Rightarrow> Some (call_driver (Timer_schedule_in IDLE_TIMEOUT) dc', q')
             else
               if door_ctrl_check_key dc (DOOR_CTRL_CARD c) val = 0
               then door_ctrl_open c (dc, q)
               else door_ctrl_reject c (dc, q)
         | DOOR_CTRL_READING_PIN \<Rightarrow>
             let dc1 = (if event = WIEGAND_READER_EVENT_CARD c
                        then dc\<lparr>pin := pin dc XOR val\<rparr> else dc);
                 key = (if event = WIEGAND_READER_EVENT_CARD c
                        then WIEGAND_KEY_ENTER c else ucast val)
             in
               if key = WIEGAND_KEY_ENTER c then
                 let type = (if event = WIEGAND_READER_EVENT_CARD c
                             then DOOR_CTRL_CARD_AND_PIN c else DOOR_CTRL_PIN c)
                 in case (if door_ctrl_check_key dc1 type (pin dc1) = 0
                          then door_ctrl_open c (dc1, q)
                          else door_ctrl_reject c (dc1, q)) of
                      None \<Rightarrow> None
                    | Some (dc', q') \<Rightarrow> Some (dc'\<lparr>pin := 0\<rparr>, q')
               else if key = WIEGAND_KEY_ESC c then
                 door_ctrl_set_state c DOOR_CTRL_IDLE (dc1, q)
               else
                 Some (call_driver (Timer_schedule_in IDLE_TIMEOUT)
                         (dc1\<lparr>pin := (push_bit 4 (pin dc1) AND NOT 0xF) OR ucast (key AND 0xF)\<rparr>),
                       q)
         | DOOR_CTRL_OPENING \<Rightarrow> Some (dc, q)
         | DOOR_CTRL_REJECTED \<Rightarrow> Some (dc, q)
         | DOOR_CTRL_TIMEOUT \<Rightarrow> Some (dc, q)
         | DOOR_CTRL_ERROR \<Rightarrow> Some (dc, q))"

definition on_open_button_changed :: "u8 \<Rightarrow> door_ctrl \<Rightarrow> door_ctrl" where
  "on_open_button_changed btn_state dc = door_ctrl_set_open DOOR_OPEN_FROM_BUTTON btn_state dc"

section \<open>The daemon's access records\<close>

text \<open>
  Modelled from the spec: the credential types of \<open>ctrl-cmd-types.h\<close>, the low two bits
  of the permission byte, in the order none, pin, card, pin+card. The table
  \<open>access_record_types\<close> of the source names them in this order.
\<close>

definition ACCESS_TYPE_NONE :: u8 where "ACCESS_TYPE_NONE = 0"

definition ACCESS_TYPE_PIN :: u8 where "ACCESS_TYPE_PIN = 1"

definition ACCESS_TYPE_CARD :: u8 where "ACCESS_TYPE_CARD = 2"

definition ACCESS_TYPE_CARD_AND_PIN :: u8 where "ACCESS_TYPE_CARD_AND_PIN = 3"

definition access_record_types :: "string list" where
  "access_record_types = [''none'', ''pin'', ''card'', ''pin+card'']"

text \<open>The fields that the daemon adds to a \<open>blob_buf\<close>, in order.\<close>

datatype blobmsg = Blobmsg_string string string | Blobmsg_u32 string u32

datatype ubus_status = UBUS_STATUS_INVALID_ARGUMENT

text \<open>
  \<open>struct access_record\<close> on the wire: the key in bytes 0 to 3, least significant byte
  first, and the permission byte at offset 4, which the source reads and writes through a
  byte pointer.
\<close>

definition htole32 :: "u32 \<Rightarrow> u8 list" where
  "htole32 k = [ucast k, ucast (drop_bit 8 k), ucast (drop_bit 16 k), ucast (drop_bit 24 k)]"

definition le32toh :: "u8 list \<Rightarrow> u32" where
  "le32toh bs = ucast (bs ! 0) OR push_bit 8 (ucast (bs ! 1)) OR push_bit 16 (ucast (bs ! 2)) OR
     push_bit 24 (ucast (bs ! 3))"

definition htole16 :: "u16 \<Rightarrow> u8 list" where
  "htole16 k = [ucast k, ucast (drop_bit 8 k)]"

text \<open>
  The two calls into the C library. \<open>sscanf(s, "%u", &v)\<close> skips white space, takes an
  optional sign and reads decimal digits; it converts nothing when no digit follows.
  A value that does not fit is reduced modulo \<open>2^32\<close> here. \<open>snprintf\<close> into
  \<open>char skey[9]\<close> keeps at most 8 characters.
\<close>

definition is_space :: "char \<Rightarrow> bool" where
  "is_space ch = (ch \<in> set [CHR '' '', CHR 0x09, CHR 0x0A, CHR 0x0B, CHR 0x0C, CHR 0x0D])"

definition is_digit :: "char \<Rightarrow> bool" where
  "is_digit ch = ((48::nat) \<le> of_char ch \<and> of_char ch \<le> (57::nat))"

definition digits_value :: "string \<Rightarrow> nat" where
  "digits_value s = foldl (\<lambda>n ch. 10 * n + (of_char ch - 48)) 0 s"

definition sscanf_u :: "string \<Rightarrow> u32 option" where
  "sscanf_u s =
    (let s1 = dropWhile is_space s;
         neg = (s1 \<noteq> [] \<and> hd s1 = CHR ''-'');
         s2 = (if s1 \<noteq> [] \<and> (hd s1 = CHR ''-'' \<or> hd s1 = CHR ''+'') then tl s1 else s1);
         ds = takeWhile is_digit s2
     in if ds = [] then None
        else Some (if neg then - word_of_nat (digits_value ds) else word_of_nat (digits_value ds)))"

fun dec_string :: "nat \<Rightarrow> string" where
  "dec_string n =
     (if n < 10 then [char_of (48 + n)]
      else dec_string (n div 10) @ [char_of (48 + n mod 10)])"

definition snprintf_u :: "nat \<Rightarrow> u32 \<Rightarrow> string" where
  "snprintf_u n key = take (n - 1) (dec_string (unat key))"

text \<open>The arguments of \<open>set_access_record\<close>; an optional argument that is absent is \<open>None\<close>.\<close>

record set_access_record_args =
  arg_index :: u32
  arg_pin :: "string option"
  arg_card :: "string option"
  arg_doors :: "u32 option"

text \<open>\<open>struct ctrl_cmd_set_access_record\<close>: the index and the record, as bytes.\<close>

record ctrl_cmd_set_access_record =
  cmd_index :: "u8 list"
  cmd_record :: "u8 list"

text \<open>The loop over \<open>str_pin\<close>: each character is a digit that is shifted into the PIN.\<close>

fun pin_loop :: "string \<Rightarrow> u32 \<Rightarrow> u32 option" where
  "pin_loop [] pin' = Some pin'"
| "pin_loop (ch # s) pin' =
     (let digit = (of_char ch :: u8) - of_char CHR ''0''
      in if digit > 9 then None else pin_loop s (push_bit 4 pin' OR ucast digit))"

text \<open>
  \<open>write_set_access_record_query\<close>. The case \<open>CARD_AND_PIN\<close> falls through from the card
  to the PIN: the card is scanned when the card argument is present (the types \<open>CARD\<close>
  and \<open>CARD_AND_PIN\<close>) and the PIN is packed when the pin argument is present (the types
  \<open>PIN\<close> and \<open>CARD_AND_PIN\<close>); both failures return the same status. On an error the
  source has already written the index; the model gives the status only.
\<close>

definition write_set_access_record_query ::
  "set_access_record_args \<Rightarrow> ubus_status + ctrl_cmd_set_access_record" where
  "write_set_access_record_query args =
    (let doors = (case arg_doors args of Some v \<Rightarrow> (ucast v :: u8) AND 0xF | None \<Rightarrow> 0);
         type = (if arg_card args \<noteq> None \<and> arg_pin args \<noteq> None then ACCESS_TYPE_CARD_AND_PIN
                 else if arg_card args \<noteq> None then ACCESS_TYPE_CARD
                 else if arg_pin args \<noteq> None then ACCESS_TYPE_PIN
                 else ACCESS_TYPE_NONE);
         scanned = (case arg_card args of None \<Rightarrow> Some 0 | Some str_card \<Rightarrow> sscanf_u str_card);
         packed = (case arg_pin args of None \<Rightarrow> Some 0
                   | Some str_pin \<Rightarrow> pin_loop str_pin 0xFFFFFFFF)
     in case scanned of
          None \<Rightarrow> Inl UBUS_STATUS_INVALID_ARGUMENT
        | Some card' \<Rightarrow>
            (case packed of
               None \<Rightarrow> Inl UBUS_STATUS_INVALID_ARGUMENT
             | Some pin' \<Rightarrow>
                 Inr \<lparr>cmd_index = htole16 (ucast (arg_index args)),
                      cmd_record = htole32 (card' XOR pin') @ [push_bit 4 doors OR type]\<rparr>))"

text \<open>The loop of the PIN case: the nibbles from the top, without the unused ones.\<close>

definition pin_string :: "u32 \<Rightarrow> string" where
  "pin_string key =
     map (\<lambda>i. char_of (unat (drop_bit (i * 4) key AND 0xF) + of_char CHR ''0''))
       (filter (\<lambda>i. drop_bit (i * 4) key AND 0xF \<noteq> 0xF) (rev [0..<8]))"

definition read_get_access_record_response ::
  "u8 list \<Rightarrow> blobmsg list \<Rightarrow> int \<times> blobmsg list" where
  "read_get_access_record_response response bbuf =
    (let perms0 = response ! 4;
         key = le32toh response;
         perms = (if perms0 AND BIT 2 \<noteq> 0 then 0 else perms0);
         type = perms AND 0x3;
         bbuf1 = bbuf @ [Blobmsg_string ''type'' (access_record_types ! unat type)]
     in if type = ACCESS_TYPE_NONE then (0, bbuf1)
        else
          let skey = (if type = ACCESS_TYPE_PIN then pin_string key else snprintf_u 9 key)
          in (0, bbuf1 @ [Blobmsg_string ''key'' skey,
                          Blobmsg_u32 ''doors'' (ucast (drop_bit 4 perms))]))"

chapter \<open>Notions for the properties\<close>

section \<open>Sequences of calls\<close>

text \<open>
  The events \<open>es\<close> added by successive calls of \<open>event_add\<close>; \<open>None\<close> when one of the
  calls does not return 0.
\<close>

fun event_add_all :: "(addr \<times> u8 \<times> u32) list \<Rightarrow> event_queue \<Rightarrow> event_queue option" where
  "event_add_all [] q = Some q"
| "event_add_all ((source, id', val) # es) q =
     (case event_add source id' val q of (ret, q') \<Rightarrow>
        if ret = 0 then event_add_all es q' else None)"

text \<open>Registering the handler objects at the addresses \<open>hs\<close>, one call after the other.\<close>

fun register_all :: "addr list \<Rightarrow> handler_registry \<Rightarrow> handler_registry option" where
  "register_all [] r = Some r"
| "register_all (h # hs) r =
     (case event_handler_add h r of (ret, r') \<Rightarrow> if ret = 0 then register_all hs r' else None)"

text \<open>The events of a list handed to \<open>on_event\<close> one after the other, as the loop does.\<close>

fun on_events ::
  "header_consts \<Rightarrow> (u8 \<times> u32) list \<Rightarrow> door_ctrl \<times> event_queue \<Rightarrow>
   (door_ctrl \<times> event_queue) option" where
  "on_events c [] w = Some w"
| "on_events c ((event, val) # es) w =
     (case on_event c event val w of None \<Rightarrow> None | Some w' \<Rightarrow> on_events c es w')"

text \<open>The calls made for an event once the handlers \<open>hs\<close> have been registered in this order.\<close>

definition dispatch_after_registering ::
  "addr list \<Rightarrow> handler_registry \<Rightarrow> event \<Rightarrow> handler_call list option" where
  "dispatch_after_registering hs r ev =
     (case register_all hs r of None \<Rightarrow> None | Some r' \<Rightarrow> event_run_handlers r' ev [])"

section \<open>The queue as a list of slots\<close>

text \<open>
  \<open>qseg st p xs r\<close>: following the \<open>next\<close> pointers from \<open>p\<close> visits exactly the
  slots \<open>xs\<close>, in this order, and arrives at \<open>r\<close>. \<open>queue_inv q xs\<close>: the queue of
  \<open>q\<close> is the list \<open>xs\<close> of distinct occupied slots, from \<open>events\<close> to \<open>NULL\<close>, and
  \<open>events_tail\<close> is its last slot.
\<close>

fun qseg :: "event list \<Rightarrow> nat option \<Rightarrow> nat list \<Rightarrow> nat option \<Rightarrow> bool" where
  "qseg st p [] r = (p = r)"
| "qseg st p (i # is) r = (p = Some i \<and> i < length st \<and> qseg st (ev_next (st ! i)) is r)"

definition slot_event :: "event list \<Rightarrow> nat \<Rightarrow> addr \<times> u8 \<times> u32" where
  "slot_event st i = (ev_source (st ! i), ev_id (st ! i), ev_val (st ! i))"

definition queue_inv :: "event_queue \<Rightarrow> nat list \<Rightarrow> bool" where
  "queue_inv q xs =
    (length (events_storage q) = MAX_PENDING_EVENTS \<and> distinct xs \<and>
     qseg (events_storage q) (events q) xs None \<and>
     events_tail q = (if xs = [] then None else Some (last xs)) \<and>
     (\<forall>i \<in> set xs. ev_source (events_storage q ! i) \<noteq> 0))"

text \<open>The events of the slots \<open>xs\<close>: source, id and value of each.\<close>

definition pending :: "event_queue \<Rightarrow> nat list \<Rightarrow> (addr \<times> u8 \<times> u32) list" where
  "pending q xs = map (slot_event (events_storage q)) xs"

text \<open>The test of \<open>event_remove\<close> on slot \<open>i\<close>, and what its loop does to a slot that matches.\<close>

definition ev_matches :: "event list \<Rightarrow> addr \<Rightarrow> u8 \<Rightarrow> nat \<Rightarrow> bool" where
  "ev_matches st source id' i = (ev_source (st ! i) = source \<and> ev_id (st ! i) = id')"

definition unlink :: "nat \<Rightarrow> nat option \<Rightarrow> event_queue \<Rightarrow> event_queue" where
  "unlink e prev q =
    (let next = ev_next (events_storage q ! e);
         q1 = (case prev of
                 Some p \<Rightarrow>
                   q\<lparr>events_storage :=
                       (events_storage q)[p := (events_storage q ! p)\<lparr>ev_next := next\<rparr>]\<rparr>
               | None \<Rightarrow> q\<lparr>events := next\<rparr>);
         q2 = (if next = None then q1\<lparr>events_tail := prev\<rparr> else q1)
     in q2\<lparr>events_storage :=
             (events_storage q2)
               [e := (events_storage q2 ! e)\<lparr>ev_next := None, ev_source := 0\<rparr>]\<rparr>)"

section \<open>The registry as a list of handlers\<close>

text \<open>
  \<open>hchain mem p hs\<close>: following the \<open>next\<close> pointers from \<open>p\<close> visits exactly the handler
  objects \<open>hs\<close>, in this order, and ends at \<open>NULL\<close>. \<open>handler_matches\<close> is the test that
  \<open>event_run_handlers\<close> makes before it calls a handler, read positively.
\<close>

fun hchain :: "(addr \<Rightarrow> event_handler) \<Rightarrow> addr \<Rightarrow> addr list \<Rightarrow> bool" where
  "hchain mem p [] = (p = 0)"
| "hchain mem p (h # hs) = (p = h \<and> h \<noteq> 0 \<and> hchain mem (h_next (mem h)) hs)"

definition handler_matches :: "event_handler \<Rightarrow> addr \<Rightarrow> u8 \<Rightarrow> bool" where
  "handler_matches h source id' =
     (h_source h = source \<and> (h_mask h = 0 \<or> (id' AND h_mask h) = h_id h))"

text \<open>
  The calls that the handlers at the addresses \<open>hs\<close>, taken in the order of the list, get
  for an event: those whose source and filter match.
\<close>

definition dispatch_calls ::
  "(addr \<Rightarrow> event_handler) \<Rightarrow> addr list \<Rightarrow> addr \<times> u8 \<times> u32 \<Rightarrow> handler_call list" where
  "dispatch_calls mem hs e =
     (case e of (source, id', val) \<Rightarrow>
        map (\<lambda>h. Handler_call (h_handler (mem h)) id' val (h_context (mem h)))
          (filter (\<lambda>h. handler_matches (mem h) source id') hs))"

section \<open>Open reasons and packed PINs\<close>

text \<open>
  The two reasons for holding the door open, as bits of \<open>open_status\<close>, and the status
  that the code tests: open while the byte is not zero.
\<close>

definition reader_reason :: "door_ctrl \<Rightarrow> bool" where
  "reader_reason dc = bit (open_status dc) (unat DOOR_OPEN_FROM_READER)"

definition button_reason :: "door_ctrl \<Rightarrow> bool" where
  "button_reason dc = bit (open_status dc) (unat DOOR_OPEN_FROM_BUTTON)"

definition door_open :: "door_ctrl \<Rightarrow> bool" where
  "door_open dc = (open_status dc \<noteq> 0)"

text \<open>
  The nibble-packed PIN of a sequence of digits: start from all ones and shift each digit
  in from the right, so that the nibbles above the digits stay \<open>0xF\<close>.
\<close>

definition pin_of_digits :: "u32 list \<Rightarrow> u32" where
  "pin_of_digits ds = foldl (\<lambda>p d. push_bit 4 p OR d) (- 1) ds"

section \<open>Example states\<close>

text \<open>Queues with three events and with all eight slots taken.\<close>

definition q3 :: event_queue where
  "q3 = the (event_add_all [(5, 1, 10), (5, 3, 11), (5, 1, 12)] queue_init)"

definition q8 :: event_queue where
  "q8 = the (event_add_all
     [(5, 1, 10), (5, 3, 11), (5, 1, 12), (6, 1, 13), (6, 2, 14), (5, 4, 15), (6, 3, 16), (5, 5, 17)]
     queue_init)"

text \<open>A queue that holds one idle-timeout event of the example door.\<close>

definition queue_stale :: event_queue where
  "queue_stale = the (event_add_all [(6, 1, 7), (5, 0x82, 0), (5, 1, 3)] queue_init)"

text \<open>
  Four handler objects at the addresses 1 to 4, not yet registered: two for source 5
  without filter, one for source 5 and the ids \<open>0x10\<close> to \<open>0x1F\<close>, one for source 6.
\<close>

definition no_handler :: event_handler where
  "no_handler = \<lparr>h_next = 0, h_source = 0, h_mask = 0, h_id = 0, h_handler = 0, h_context = 0\<rparr>"

definition registry_example :: handler_registry where
  "registry_example =
     \<lparr>handlers = 0,
      hmem = (\<lambda>a. no_handler)
        (1 := \<lparr>h_next = 0, h_source = 5, h_mask = 0, h_id = 0, h_handler = 100, h_context = 11\<rparr>,
         2 := \<lparr>h_next = 0, h_source = 5, h_mask = 0, h_id = 0, h_handler = 200, h_context = 22\<rparr>,
         3 := \<lparr>h_next = 0, h_source = 5, h_mask = 0xF0, h_id = 0x10, h_handler = 300, h_context = 33\<rparr>,
         4 := \<lparr>h_next = 0, h_source = 6, h_mask = 0, h_id = 0, h_handler = 400, h_context = 44\<rparr>)\<rparr>"

definition event_example :: event where
  "event_example = \<lparr>ev_next = None, ev_source = 5, ev_id = 1, ev_val = 10\<rparr>"

definition system_example :: system where
  "system_example =
     \<lparr>evq = queue_init, registry = the (register_all [1, 2, 3, 4] registry_example), calls = []\<rparr>"

text \<open>Values for the header constants, with the key codes 10 and 11 of a Wiegand keypad.\<close>

definition consts_example :: header_consts where
  "consts_example =
    \<lparr>DOOR_CTRL_EVENT_STATE_CHANGED = 0x80, DOOR_CTRL_EVENT_BUZZER_FINISHED = 0x81,
     DOOR_CTRL_EVENT_IDLE_TIMEOUT = 0x82, WIEGAND_READER_ERROR = 0,
     WIEGAND_READER_EVENT_KEY = 1, WIEGAND_READER_EVENT_CARD = 2,
     WIEGAND_KEY_ENTER = 11, WIEGAND_KEY_ESC = 10,
     DOOR_CTRL_PIN = 1, DOOR_CTRL_CARD = 2, DOOR_CTRL_CARD_AND_PIN = 3\<rparr>"

text \<open>A controller after \<open>door_ctrl_init\<close>, whose validator accepts the PIN 1234 only.\<close>

definition door_example :: door_ctrl where
  "door_example =
    \<lparr>door_id = 1, open_time = 3000, state = DOOR_CTRL_IDLE, pin = 0, open_status = 0,
     check_key = Some (\<lambda>door type key context. if type = 1 \<and> key = 0xFFFF1234 then 0 else - 1),
     check_context = 0, wr = 5, driver_calls = []\<rparr>"

definition door_nokey :: door_ctrl where
  "door_nokey = door_example\<lparr>check_key := None\<rparr>"

chapter \<open>Properties\<close>

section \<open>Removing events from the queue\<close>

lemma qseg_append:
  "qseg st p (xs @ ys) r = (\<exists>m. qseg st p xs m \<and> qseg st m ys r)"
  by (induction xs arbitrary: p) auto

lemma qseg_update_other:
  "qseg st p xs r \<Longrightarrow> j \<notin> set xs \<Longrightarrow> qseg (st[j := v]) p xs r"
  by (induction xs arbitrary: p) auto

lemma qseg_relink_last:
  "qseg st p xs r \<Longrightarrow> xs \<noteq> [] \<Longrightarrow> distinct xs \<Longrightarrow>
   qseg (st[last xs := (st ! last xs)\<lparr>ev_next := n\<rparr>]) p xs n"
proof (induction xs arbitrary: p)
  case Nil
  then show ?case by simp
next
  case (Cons i xs)
  show ?case
  proof (cases "xs = []")
    case True
    with Cons.prems show ?thesis by simp
  next
    case False
    with Cons.prems have "last xs \<noteq> i" by auto
    with Cons False show ?thesis by simp
  qed
qed

lemma qseg_end_None:
  "qseg st p xs None \<Longrightarrow> (p = None) = (xs = [])"
  by (cases xs) auto

lemma qseg_in_range: "qseg st p xs r \<Longrightarrow> i \<in> set xs \<Longrightarrow> i < length st"
  by (induction xs arbitrary: p) auto

lemma event_remove_loop_nomatch:
  "qseg (events_storage q) ev rs None \<Longrightarrow>
   \<forall>i \<in> set rs. \<not> ev_matches (events_storage q) source id' i \<Longrightarrow>
   event_remove_loop source id' ev prev q = Some q"
proof (induction rs arbitrary: ev prev)
  case Nil
  then show ?case by (simp add: event_remove_loop.simps)
next
  case (Cons e rs)
  from Cons.prems have ev: "ev = Some e" and
    rest: "qseg (events_storage q) (ev_next (events_storage q ! e)) rs None" by auto
  from Cons.prems have nm: "ev_source (events_storage q ! e) \<noteq> source \<or> ev_id (events_storage q ! e) \<noteq> id'"
    by (auto simp: ev_matches_def)
  have "event_remove_loop source id' ev prev q =
        event_remove_loop source id' (ev_next (events_storage q ! e)) (Some e) q"
    using ev nm by (subst event_remove_loop.simps) (simp add: Let_def)
  also have "\<dots> = Some q" using Cons.IH[OF rest] Cons.prems(2) by simp
  finally show ?case .
qed

lemma event_remove_loop_step_keep:
  "ev_source (events_storage q ! e) \<noteq> source \<or> ev_id (events_storage q ! e) \<noteq> id' \<Longrightarrow>
   event_remove_loop source id' (Some e) prev q =
   event_remove_loop source id' (ev_next (events_storage q ! e)) (Some e) q"
  by (subst event_remove_loop.simps) (simp add: Let_def)

lemma event_remove_loop_step_drop:
  "ev_source (events_storage q ! e) = source \<Longrightarrow> ev_id (events_storage q ! e) = id' \<Longrightarrow>
   event_remove_loop source id' (Some e) prev q =
   event_remove_loop source id' (ev_next (events_storage q ! e)) prev (unlink e prev q)"
  by (subst event_remove_loop.simps) (simp add: Let_def unlink_def)

lemma unlink_storage:
  "events_storage (unlink e prev q) =
    (case prev of
       None \<Rightarrow> (events_storage q)[e := (events_storage q ! e)\<lparr>ev_next := None, ev_source := 0\<rparr>]
     | Some p \<Rightarrow>
        (let st1 = (events_storage q)[p := (events_storage q ! p)\<lparr>ev_next := ev_next (events_storage q ! e)\<rparr>]
         in st1[e := (st1 ! e)\<lparr>ev_next := None, ev_source := 0\<rparr>]))"
  by (simp add: unlink_def Let_def split: option.splits)

lemma unlink_events:
  "events (unlink e prev q) = (case prev of None \<Rightarrow> ev_next (events_storage q ! e) | Some p \<Rightarrow> events q)"
  by (simp add: unlink_def Let_def split: option.splits)

lemma unlink_tail:
  "events_tail (unlink e prev q) =
     (if ev_next (events_storage q ! e) = None then prev else events_tail q)"
  by (simp add: unlink_def Let_def split: option.splits)

lemma unlink_length: "length (events_storage (unlink e prev q)) = length (events_storage q)"
  by (simp add: unlink_storage Let_def split: option.splits)

lemma unlink_other:
  "j \<noteq> e \<Longrightarrow> prev \<noteq> Some j \<Longrightarrow> events_storage (unlink e prev q) ! j = events_storage q ! j"
  by (cases prev) (simp_all add: unlink_storage Let_def)

lemma unlink_prev_event:
  "prev = Some p \<Longrightarrow> p \<noteq> e \<Longrightarrow> p < length (events_storage q) \<Longrightarrow>
   slot_event (events_storage (unlink e prev q)) p = slot_event (events_storage q) p"
  by (simp add: unlink_storage Let_def slot_event_def)

lemma unlink_removed:
  "e < length (events_storage q) \<Longrightarrow> ev_source (events_storage (unlink e prev q) ! e) = 0"
  by (simp add: unlink_storage Let_def split: option.splits)

lemma unlink_seg_done:
  assumes "qseg (events_storage q) (events q) ds (Some e)" "distinct ds" "e \<notin> set ds"
    and "prev = (if ds = [] then None else Some (last ds))"
  shows "qseg (events_storage (unlink e prev q)) (events (unlink e prev q)) ds
           (ev_next (events_storage q ! e))"
proof (cases "ds = []")
  case True
  with assms show ?thesis by (simp add: unlink_events)
next
  case False
  let ?st = "events_storage q" and ?n = "ev_next (events_storage q ! e)"
  from assms False have p: "prev = Some (last ds)" by simp
  have "qseg (?st[last ds := (?st ! last ds)\<lparr>ev_next := ?n\<rparr>]) (events q) ds ?n"
    using qseg_relink_last[OF assms(1) False assms(2)] .
  then have "qseg ((?st[last ds := (?st ! last ds)\<lparr>ev_next := ?n\<rparr>])[e := v]) (events q) ds ?n" for v
    using assms(3) by (rule qseg_update_other)
  then show ?thesis by (simp add: unlink_storage unlink_events p Let_def)
qed

lemma unlink_seg_rest:
  assumes "qseg (events_storage q) n rs r" "e \<notin> set rs" "\<forall>p. prev = Some p \<longrightarrow> p \<notin> set rs"
  shows "qseg (events_storage (unlink e prev q)) n rs r"
  using assms
  by (cases prev) (auto simp: unlink_storage Let_def intro!: qseg_update_other)

lemma event_remove_loop_correct:
  assumes "qseg (events_storage q) (events q) ds ev"
    and "qseg (events_storage q) ev rs None"
    and "distinct (ds @ rs)"
    and "prev = (if ds = [] then None else Some (last ds))"
    and "events_tail q = (if ds @ rs = [] then None else Some (last (ds @ rs)))"
  shows "\<exists>q'. event_remove_loop source id' ev prev q = Some q' \<and>
     length (events_storage q') = length (events_storage q) \<and>
     qseg (events_storage q') (events q')
        (ds @ filter (\<lambda>i. \<not> ev_matches (events_storage q) source id' i) rs) None \<and>
     events_tail q' =
        (if ds @ filter (\<lambda>i. \<not> ev_matches (events_storage q) source id' i) rs = [] then None
         else Some (last (ds @ filter (\<lambda>i. \<not> ev_matches (events_storage q) source id' i) rs))) \<and>
     (\<forall>j. j \<notin> set ds \<union> set rs \<longrightarrow> events_storage q' ! j = events_storage q ! j) \<and>
     (\<forall>j. \<not> (j \<in> set rs \<and> ev_matches (events_storage q) source id' j) \<longrightarrow>
          slot_event (events_storage q') j = slot_event (events_storage q) j) \<and>
     (\<forall>j \<in> set rs. ev_matches (events_storage q) source id' j \<longrightarrow>
          ev_source (events_storage q' ! j) = 0)"
  using assms
proof (induction rs arbitrary: ds ev prev q)
  case Nil
  then show ?case by (simp add: event_remove_loop.simps)
next
  case (Cons e rs)
  let ?st = "events_storage q"
  let ?n = "ev_next (?st ! e)"
  from Cons.prems(2) have ev: "ev = Some e" and e_len: "e < length ?st"
    and rest: "qseg ?st ?n rs None" by auto
  from Cons.prems(3) have e_ds: "e \<notin> set ds" and e_rs: "e \<notin> set rs"
    and dist: "distinct (ds @ rs)" and dds: "distinct ds" by auto
  show ?case
  proof (cases "ev_matches ?st source id' e")
    case False
    then have step: "event_remove_loop source id' ev prev q =
        event_remove_loop source id' ?n (Some e) q"
      unfolding ev by (intro event_remove_loop_step_keep) (auto simp: ev_matches_def)
    have 1: "qseg ?st (events q) (ds @ [e]) ?n"
      using Cons.prems(1) e_len by (auto simp: qseg_append ev)
    have 3: "distinct ((ds @ [e]) @ rs)" using Cons.prems(3) by auto
    have 4: "Some e = (if ds @ [e] = [] then None else Some (last (ds @ [e])))" by simp
    have 5: "events_tail q = (if (ds @ [e]) @ rs = [] then None else Some (last ((ds @ [e]) @ rs)))"
      using Cons.prems(5) by simp
    from Cons.IH[OF 1 rest 3 4 5] False step
    show ?thesis by (auto simp: Un_insert_left)
  next
    case True
    let ?q = "unlink e prev q"
    let ?st' = "events_storage ?q"
    from True have step: "event_remove_loop source id' ev prev q =
        event_remove_loop source id' ?n prev ?q"
      unfolding ev by (intro event_remove_loop_step_drop) (auto simp: ev_matches_def)
    have rs_e: "(?n = None) = (rs = [])" using rest by (rule qseg_end_None)
    have prev_rs: "\<forall>p. prev = Some p \<longrightarrow> p \<notin> set rs \<and> p \<noteq> e \<and> p \<in> set ds"
      using Cons.prems(3,4) by (auto split: if_splits dest: last_in_set)
    have 1: "qseg ?st' (events ?q) ds ?n"
      using Cons.prems(1) dds e_ds Cons.prems(4) unfolding ev by (rule unlink_seg_done)
    have 2: "qseg ?st' ?n rs None"
      using rest e_rs prev_rs by (intro unlink_seg_rest) auto
    have 5: "events_tail ?q = (if ds @ rs = [] then None else Some (last (ds @ rs)))"
      using Cons.prems(4,5) rs_e by (auto simp: unlink_tail)
    have same: "slot_event ?st' j = slot_event ?st j" if "j \<noteq> e" for j
    proof (cases "prev = Some j")
      case True
      moreover from True prev_rs have "j \<in> set ds" by simp
      then have "j < length ?st" using Cons.prems(1) by (rule qseg_in_range[rotated])
      ultimately show ?thesis using that by (intro unlink_prev_event) auto
    next
      case False
      with that show ?thesis by (simp add: slot_event_def unlink_other)
    qed
    have m: "ev_matches ?st' source id' j = ev_matches ?st source id' j" if "j \<noteq> e" for j
      using same[OF that] by (simp add: ev_matches_def slot_event_def)
    have f: "filter (\<lambda>i. \<not> ev_matches ?st' source id' i) rs =
             filter (\<lambda>i. \<not> ev_matches ?st source id' i) rs"
    proof (rule filter_cong[OF refl])
      fix x assume "x \<in> set rs"
      with e_rs have "x \<noteq> e" by auto
      then show "(\<not> ev_matches ?st' source id' x) = (\<not> ev_matches ?st source id' x)"
        by (simp add: m)
    qed
    from Cons.IH[OF 1 2 dist Cons.prems(4) 5]
    obtain q' where q': "event_remove_loop source id' ?n prev ?q = Some q'"
      and len: "length (events_storage q') = length ?st'"
      and seg: "qseg (events_storage q') (events q')
           (ds @ filter (\<lambda>i. \<not> ev_matches ?st' source id' i) rs) None"
      and tl: "events_tail q' =
        (if ds @ filter (\<lambda>i. \<not> ev_matches ?st' source id' i) rs = [] then None
         else Some (last (ds @ filter (\<lambda>i. \<not> ev_matches ?st' source id' i) rs)))"
      and out: "\<forall>j. j \<notin> set ds \<union> set rs \<longrightarrow> events_storage q' ! j = ?st' ! j"
      and keep: "\<forall>j. \<not> (j \<in> set rs \<and> ev_matches ?st' source id' j) \<longrightarrow>
          slot_event (events_storage q') j = slot_event ?st' j"
      and gone: "\<forall>j \<in> set rs. ev_matches ?st' source id' j \<longrightarrow>
          ev_source (events_storage q' ! j) = 0"
      by blast
    have a: "length (events_storage q') = length ?st" using len by (simp add: unlink_length)
    have b: "\<forall>j. j \<notin> set ds \<union> set (e # rs) \<longrightarrow> events_storage q' ! j = ?st ! j"
    proof (intro allI impI)
      fix j assume j: "j \<notin> set ds \<union> set (e # rs)"
      with prev_rs have "prev \<noteq> Some j" and "j \<noteq> e" by auto
      then have "?st' ! j = ?st ! j" by (simp add: unlink_other)
      with out j show "events_storage q' ! j = ?st ! j" by simp
    qed
    have c: "\<forall>j. \<not> (j \<in> set (e # rs) \<and> ev_matches ?st source id' j) \<longrightarrow>
          slot_event (events_storage q') j = slot_event ?st j"
    proof (intro allI impI)
      fix j assume j: "\<not> (j \<in> set (e # rs) \<and> ev_matches ?st source id' j)"
      with True have ne: "j \<noteq> e" by auto
      with j have "\<not> (j \<in> set rs \<and> ev_matches ?st' source id' j)" by (simp add: m)
      with keep have "slot_event (events_storage q') j = slot_event ?st' j" by blast
      with same[OF ne] show "slot_event (events_storage q') j = slot_event ?st j" by simp
    qed
    have "slot_event (events_storage q') e = slot_event ?st' e"
      using keep e_rs by blast
    then have e0: "ev_source (events_storage q' ! e) = 0"
      using unlink_removed[OF e_len, of prev] by (simp add: slot_event_def)
    have d: "\<forall>j \<in> set (e # rs). ev_matches ?st source id' j \<longrightarrow>
          ev_source (events_storage q' ! j) = 0"
    proof (intro ballI impI)
      fix j assume j: "j \<in> set (e # rs)" "ev_matches ?st source id' j"
      show "ev_source (events_storage q' ! j) = 0"
      proof (cases "j = e")
        case True
        with e0 show ?thesis by simp
      next
        case False
        with j have "j \<in> set rs" "ev_matches ?st' source id' j" by (simp_all add: m)
        with gone show ?thesis by blast
      qed
    qed
    show ?thesis
      unfolding step q' using a b c d seg tl True by (simp add: f)
  qed
qed

lemma event_remove_queue:
  assumes inv: "queue_inv q xs" and src: "source \<noteq> 0"
  shows "\<exists>q'. event_remove source id' q = Some (0, q') \<and>
     queue_inv q' (filter (\<lambda>i. \<not> ev_matches (events_storage q) source id' i) xs) \<and>
     pending q' (filter (\<lambda>i. \<not> ev_matches (events_storage q) source id' i) xs) =
       filter (\<lambda>(s, i, v). \<not> (s = source \<and> i = id')) (pending q xs) \<and>
     (\<forall>j \<in> set xs. ev_matches (events_storage q) source id' j \<longrightarrow>
        ev_source (events_storage q' ! j) = 0) \<and>
     (\<forall>j. j \<notin> set xs \<longrightarrow> events_storage q' ! j = events_storage q ! j)"
proof -
  let ?st = "events_storage q"
  let ?keep = "\<lambda>i. \<not> ev_matches ?st source id' i"
  have 1: "qseg ?st (events q) [] (events q)" by simp
  have 2: "qseg ?st (events q) xs None" using inv by (simp add: queue_inv_def)
  have 3: "distinct ([] @ xs)" using inv by (simp add: queue_inv_def)
  have 4: "None = (if ([]::nat list) = [] then None else Some (last []))" by simp
  have 5: "events_tail q = (if [] @ xs = [] then None else Some (last ([] @ xs)))"
    using inv by (simp add: queue_inv_def)
  from event_remove_loop_correct[OF 1 2 3 4 5, of source id']
  obtain q' where q': "event_remove_loop source id' (events q) None q = Some q'"
    and len: "length (events_storage q') = length ?st"
    and seg: "qseg (events_storage q') (events q') (filter ?keep xs) None"
    and tl: "events_tail q' =
        (if filter ?keep xs = [] then None else Some (last (filter ?keep xs)))"
    and out: "\<forall>j. j \<notin> set xs \<longrightarrow> events_storage q' ! j = ?st ! j"
    and keep: "\<forall>j. \<not> (j \<in> set xs \<and> ev_matches ?st source id' j) \<longrightarrow>
          slot_event (events_storage q') j = slot_event ?st j"
    and gone: "\<forall>j \<in> set xs. ev_matches ?st source id' j \<longrightarrow>
          ev_source (events_storage q' ! j) = 0"
    by auto
  have occupied: "\<forall>i \<in> set (filter ?keep xs). ev_source (events_storage q' ! i) \<noteq> 0"
  proof
    fix i assume i: "i \<in> set (filter ?keep xs)"
    with keep have "slot_event (events_storage q') i = slot_event ?st i" by simp
    moreover from i inv have "ev_source (?st ! i) \<noteq> 0" by (simp add: queue_inv_def)
    ultimately show "ev_source (events_storage q' ! i) \<noteq> 0" by (simp add: slot_event_def)
  qed
  have inv': "queue_inv q' (filter ?keep xs)"
    using inv len seg tl occupied by (simp add: queue_inv_def)
  have "map (slot_event (events_storage q')) (filter ?keep xs) =
        map (slot_event ?st) (filter ?keep xs)"
    using keep by (intro map_cong) auto
  also have "\<dots> = filter (\<lambda>(s, i, v). \<not> (s = source \<and> i = id')) (map (slot_event ?st) xs)"
    by (simp add: filter_map comp_def slot_event_def ev_matches_def)
  finally have pend: "pending q' (filter ?keep xs) =
       filter (\<lambda>(s, i, v). \<not> (s = source \<and> i = id')) (pending q xs)"
    by (simp add: pending_def)
  show ?thesis
    using q' src inv' pend gone out by (simp add: event_remove_def)
qed

lemma event_remove_nomatch:
  assumes inv: "queue_inv q xs" and src: "source \<noteq> 0"
    and nm: "\<forall>i \<in> set xs. \<not> ev_matches (events_storage q) source id' i"
  shows "event_remove source id' q = Some (0, q)"
  using event_remove_loop_nomatch[of q "events q" xs source id' None] assms
  by (simp add: event_remove_def queue_inv_def)

lemma event_remove_null:
  assumes inv: "queue_inv q xs"
  shows "event_remove 0 id' q = Some (- EINVAL, q) \<and>
     filter (\<lambda>i. \<not> ev_matches (events_storage q) 0 id' i) xs = xs"
proof -
  from inv have "\<forall>i \<in> set xs. \<not> ev_matches (events_storage q) 0 id' i"
    by (auto simp: queue_inv_def ev_matches_def)
  then have "filter (\<lambda>i. \<not> ev_matches (events_storage q) 0 id' i) xs = xs"
    by (simp add: filter_id_conv)
  then show ?thesis by (simp add: event_remove_def)
qed

lemma pending_no_null:
  assumes "queue_inv q xs"
  shows "filter (\<lambda>(s, i, v). \<not> (s = 0 \<and> i = id')) (pending q xs) = pending q xs"
proof -
  from assms have "\<forall>e \<in> set (pending q xs). fst e \<noteq> 0"
    by (auto simp: queue_inv_def pending_def slot_event_def)
  then show ?thesis by (auto simp: filter_id_conv)
qed

text \<open>
  C9. On a well-formed queue \<open>event_remove source id\<close> returns (0, or \<open>-EINVAL\<close> for
  the source \<open>NULL\<close>, which no queued event has). The queue is then the old one without
  the slots whose source and id both match: the other events keep their order and their
  source, id and value, head and tail are those of the shorter list (also when the last
  event was removed), the removed slots are free, slots outside the queue are untouched,
  and when nothing matches the whole state is unchanged.
\<close>

theorem event_remove_spec:
  assumes "queue_inv q xs"
  shows "\<exists>q'. event_remove source id' q = Some (if source = 0 then - EINVAL else 0, q') \<and>
     queue_inv q' (filter (\<lambda>i. \<not> ev_matches (events_storage q) source id' i) xs) \<and>
     pending q' (filter (\<lambda>i. \<not> ev_matches (events_storage q) source id' i) xs) =
       filter (\<lambda>(s, i, v). \<not> (s = source \<and> i = id')) (pending q xs) \<and>
     (\<forall>j \<in> set xs. ev_matches (events_storage q) source id' j \<longrightarrow>
        ev_source (events_storage q' ! j) = 0) \<and>
     (\<forall>j. j \<notin> set xs \<longrightarrow> events_storage q' ! j = events_storage q ! j) \<and>
     ((\<forall>i \<in> set xs. \<not> ev_matches (events_storage q) source id' i) \<longrightarrow> q' = q)"
proof (cases "source = 0")
  case True
  from assms have "\<forall>i \<in> set xs. \<not> ev_matches (events_storage q) 0 id' i"
    by (auto simp: queue_inv_def ev_matches_def)
  with event_remove_null[OF assms, of id'] pending_no_null[OF assms, of id'] assms True
  show ?thesis by auto
next
  case False
  with event_remove_queue[OF assms False, of id'] event_remove_nomatch[OF assms False, of id']
  show ?thesis by auto
qed

theorem event_remove_spec_witness:
  "queue_inv q3 [0, 1, 2] \<and> (5::addr) \<noteq> 0 \<and>
   pending q3 [0, 1, 2] = [(5, 1, 10), (5, 3, 11), (5, 1, 12)] \<and>
   (\<exists>q'. event_remove 5 1 q3 = Some (0, q') \<and> queue_inv q' [1] \<and>
         pending q' [1] = [(5, 3, 11)] \<and>
         ev_source (events_storage q' ! 0) = 0 \<and> ev_source (events_storage q' ! 2) = 0) \<and>
   event_remove 7 1 q3 = Some (0, q3)"
proof -
  have h: "queue_inv q3 [0, 1, 2]" by code_simp
  have n: "\<forall>i \<in> set [0, 1, 2]. \<not> ev_matches (events_storage q3) 7 1 i" by code_simp
  from event_remove_spec[OF h, of 7 1] n have u: "event_remove 7 1 q3 = Some (0, q3)"
    by auto
  have f: "filter (\<lambda>i. \<not> ev_matches (events_storage q3) 5 1 i) [0, 1, 2] = [1]" by code_simp
  have p: "pending q3 [0, 1, 2] = [(5, 1, 10), (5, 3, 11), (5, 1, 12)]" by code_simp
  have m: "ev_matches (events_storage q3) 5 1 0" "ev_matches (events_storage q3) 5 1 2"
    by code_simp+
  from event_remove_spec[OF h, of 5 1] h p m u show ?thesis
    unfolding f by auto
qed

section \<open>Adding events to the queue\<close>

lemma find_free_None:
  "(find (\<lambda>i. ev_source (st ! i) = 0) [0..<n] = None) = (\<forall>i<n. ev_source (st ! i) \<noteq> 0)"
  by (auto simp: find_None_iff)

lemma find_free_Some:
  "find (\<lambda>i. ev_source (st ! i) = 0) [0..<n] = Some ev \<Longrightarrow> ev < n \<and> ev_source (st ! ev) = 0"
  by (auto simp: find_Some_iff)

lemma event_add_null: "event_add 0 id' val q = (- EINVAL, q)"
  by (simp add: event_add_def)

lemma event_add_full:
  "source \<noteq> 0 \<Longrightarrow> \<forall>i<MAX_PENDING_EVENTS. ev_source (events_storage q ! i) \<noteq> 0 \<Longrightarrow>
   event_add source id' val q = (- ENOMEM, q)"
  using find_free_None[of "events_storage q" MAX_PENDING_EVENTS]
  by (simp add: event_add_def)

lemma event_add_append:
  assumes inv: "queue_inv q xs" and src: "source \<noteq> 0"
    and free: "\<exists>i<MAX_PENDING_EVENTS. ev_source (events_storage q ! i) = 0"
  shows "\<exists>q' ev. event_add source id' val q = (0, q') \<and> ev \<notin> set xs \<and>
     queue_inv q' (xs @ [ev]) \<and>
     pending q' (xs @ [ev]) = pending q xs @ [(source, id', val)] \<and>
     (\<forall>j. j \<noteq> ev \<and> j \<notin> set xs \<longrightarrow> events_storage q' ! j = events_storage q ! j)"
proof -
  let ?st = "events_storage q"
  from free obtain ev where f: "find (\<lambda>i. ev_source (?st ! i) = 0) [0..<MAX_PENDING_EVENTS] = Some ev"
    using find_free_None[of ?st MAX_PENDING_EVENTS] by fastforce
  then have ev: "ev < MAX_PENDING_EVENTS" "ev_source (?st ! ev) = 0"
    using find_free_Some by blast+
  from inv have len: "length ?st = MAX_PENDING_EVENTS" and dist: "distinct xs"
    and seg: "qseg ?st (events q) xs None"
    and tl: "events_tail q = (if xs = [] then None else Some (last xs))"
    and occ: "\<forall>i \<in> set xs. ev_source (?st ! i) \<noteq> 0"
    by (simp_all add: queue_inv_def)
  from ev occ have nin: "ev \<notin> set xs" by auto
  let ?new = "\<lparr>ev_next = None, ev_source = source, ev_id = id', ev_val = val\<rparr>"
  let ?st1 = "?st[ev := ?new]"
  have seg1: "qseg ?st1 (events q) xs None" using seg nin by (rule qseg_update_other)
  show ?thesis
  proof (cases "xs = []")
    case True
    let ?q = "q\<lparr>events := Some ev, events_tail := Some ev, events_storage := ?st1\<rparr>"
    from True tl f src have r: "event_add source id' val q = (0, ?q)"
      by (simp add: event_add_def)
    have "queue_inv ?q [ev]" using len ev src by (simp add: queue_inv_def)
    moreover have "pending ?q [ev] = [(source, id', val)]"
      using len ev by (simp add: pending_def slot_event_def)
    moreover have "\<forall>j. j \<noteq> ev \<and> j \<notin> set [] \<longrightarrow> events_storage ?q ! j = ?st ! j"
      by simp
    ultimately have "event_add source id' val q = (0, ?q) \<and> ev \<notin> set [] \<and>
       queue_inv ?q ([] @ [ev]) \<and>
       pending ?q ([] @ [ev]) = pending q [] @ [(source, id', val)] \<and>
       (\<forall>j. j \<noteq> ev \<and> j \<notin> set [] \<longrightarrow> events_storage ?q ! j = ?st ! j)"
      using r by (simp add: pending_def)
    then show ?thesis unfolding True by blast
  next
    case False
    let ?t = "last xs"
    let ?st2 = "?st1[?t := (?st1 ! ?t)\<lparr>ev_next := Some ev\<rparr>]"
    let ?q = "q\<lparr>events_tail := Some ev, events_storage := ?st2\<rparr>"
    from False tl f src have r: "event_add source id' val q = (0, ?q)"
      by (simp add: event_add_def Let_def)
    from False have t_in: "?t \<in> set xs" by simp
    with nin have t_ne: "?t \<noteq> ev" by auto
    from t_in seg have t_len: "?t < length ?st" by (rule qseg_in_range[rotated])
    have seg2: "qseg ?st2 (events q) xs (Some ev)"
      using seg1 False dist by (rule qseg_relink_last)
    have "qseg ?st2 (Some ev) [ev] None" using t_ne len ev by simp
    with seg2 have seg3: "qseg ?st2 (events q) (xs @ [ev]) None"
      by (auto simp: qseg_append)
    have same: "slot_event ?st2 j = slot_event ?st j" if "j \<in> set xs" for j
    proof -
      from that nin have "j \<noteq> ev" by auto
      then show ?thesis using t_len
        by (cases "j = ?t") (simp_all add: slot_event_def)
    qed
    have new: "slot_event ?st2 ev = (source, id', val)"
      using t_ne len ev by (simp add: slot_event_def)
    have occ2: "\<forall>i \<in> set (xs @ [ev]). ev_source (?st2 ! i) \<noteq> 0"
    proof
      fix i assume "i \<in> set (xs @ [ev])"
      then consider "i \<in> set xs" | "i = ev" by auto
      then show "ev_source (?st2 ! i) \<noteq> 0"
      proof cases
        case 1
        with same[OF 1] occ show ?thesis by (simp add: slot_event_def)
      next
        case 2
        with new src show ?thesis by (simp add: slot_event_def)
      qed
    qed
    have inv': "queue_inv ?q (xs @ [ev])"
      using len dist nin seg3 occ2 by (simp add: queue_inv_def)
    have pend: "pending ?q (xs @ [ev]) = pending q xs @ [(source, id', val)]"
      using same new by (simp add: pending_def)
    have out: "\<forall>j. j \<noteq> ev \<and> j \<notin> set xs \<longrightarrow> events_storage ?q ! j = ?st ! j"
    proof (intro allI impI)
      fix j assume j: "j \<noteq> ev \<and> j \<notin> set xs"
      with t_in have "j \<noteq> ?t" by auto
      with j show "events_storage ?q ! j = ?st ! j" by simp
    qed
    show ?thesis using r nin inv' pend out by blast
  qed
qed

lemma event_add_free:
  "source \<noteq> 0 \<Longrightarrow> \<exists>i<MAX_PENDING_EVENTS. ev_source (events_storage q ! i) = 0 \<Longrightarrow>
   fst (event_add source id' val q) = 0"
  using find_free_None[of "events_storage q" MAX_PENDING_EVENTS]
  by (auto simp: event_add_def Let_def split: option.splits)

text \<open>
  C5. \<open>event_add\<close> with a \<open>NULL\<close> source returns \<open>-EINVAL\<close> and leaves the whole state
  as it was; with a source and all \<open>MAX_PENDING_EVENTS\<close> slots occupied it returns
  \<open>-ENOMEM\<close> and leaves the whole state (every slot, head and tail) as it was; with a
  source and a free slot it returns 0, and on a well-formed queue the new event is then
  the last of the queue, behind the unchanged earlier events.
\<close>

theorem event_add_contract:
  "event_add 0 id' val q = (- EINVAL, q) \<and>
   (source \<noteq> 0 \<and> (\<forall>i<MAX_PENDING_EVENTS. ev_source (events_storage q ! i) \<noteq> 0) \<longrightarrow>
      event_add source id' val q = (- ENOMEM, q)) \<and>
   (source \<noteq> 0 \<and> (\<exists>i<MAX_PENDING_EVENTS. ev_source (events_storage q ! i) = 0) \<longrightarrow>
      fst (event_add source id' val q) = 0 \<and>
      (queue_inv q xs \<longrightarrow>
        (\<exists>q' ev. event_add source id' val q = (0, q') \<and> ev \<notin> set xs \<and>
           queue_inv q' (xs @ [ev]) \<and>
           pending q' (xs @ [ev]) = pending q xs @ [(source, id', val)] \<and>
           (\<forall>j. j \<noteq> ev \<and> j \<notin> set xs \<longrightarrow> events_storage q' ! j = events_storage q ! j))))"
  using event_add_null[of id' val q] event_add_full[of source q id' val]
    event_add_free[of source q id' val] event_add_append[of q xs source id' val]
  by blast

theorem event_add_contract_witness:
  "(5::addr) \<noteq> 0 \<and>
   list_all (\<lambda>i. ev_source (events_storage q8 ! i) \<noteq> 0) [0..<MAX_PENDING_EVENTS] \<and>
   event_add 5 1 99 q8 = (- ENOMEM, q8) \<and>
   (\<exists>i<MAX_PENDING_EVENTS. ev_source (events_storage q3 ! i) = 0) \<and>
   queue_inv q3 [0, 1, 2] \<and>
   (\<exists>q' ev. event_add 5 2 13 q3 = (0, q') \<and> ev \<notin> set [0, 1, 2] \<and>
       queue_inv q' ([0, 1, 2] @ [ev]) \<and>
       pending q' ([0, 1, 2] @ [ev]) = [(5, 1, 10), (5, 3, 11), (5, 1, 12), (5, 2, 13)])"
proof -
  have "\<forall>i \<in> {0..<MAX_PENDING_EVENTS}. ev_source (events_storage q8 ! i) \<noteq> 0" by code_simp
  then have full: "\<forall>i<MAX_PENDING_EVENTS. ev_source (events_storage q8 ! i) \<noteq> 0" by simp
  have "ev_source (events_storage q3 ! 3) = 0" "3 < MAX_PENDING_EVENTS" by code_simp+
  then have free: "\<exists>i<MAX_PENDING_EVENTS. ev_source (events_storage q3 ! i) = 0" by blast
  have h: "queue_inv q3 [0, 1, 2]" by code_simp
  have p: "pending q3 [0, 1, 2] = [(5, 1, 10), (5, 3, 11), (5, 1, 12)]" by code_simp
  from event_add_contract[of 1 99 q8 5 "[]"] full
  have a: "event_add 5 1 99 q8 = (- ENOMEM, q8)" by simp
  from event_add_contract[of 2 13 q3 5 "[0, 1, 2]"] free h
  have b: "\<exists>q' ev. event_add 5 2 13 q3 = (0, q') \<and> ev \<notin> set [0, 1, 2] \<and>
       queue_inv q' ([0, 1, 2] @ [ev]) \<and>
       pending q' ([0, 1, 2] @ [ev]) = pending q3 [0, 1, 2] @ [(5, 2, 13)]"
    by simp blast
  show ?thesis using full a free h b unfolding p by (simp add: list_all_iff)
qed

section \<open>Dispatch to the handlers\<close>

lemma event_run_handlers_loop_chain:
  "hchain mem p hs \<Longrightarrow>
   event_run_handlers_loop mem ev p cs =
     Some (cs @ dispatch_calls mem hs (ev_source ev, ev_id ev, ev_val ev))"
proof (induction hs arbitrary: p cs)
  case Nil
  then show ?case by (simp add: event_run_handlers_loop.simps dispatch_calls_def)
next
  case (Cons h hs)
  then have p: "p = h" "h \<noteq> 0" and rest: "hchain mem (h_next (mem h)) hs" by auto
  show ?case
    unfolding p
    by (subst event_run_handlers_loop.simps)
       (use p in \<open>auto simp: Cons.IH[OF rest] dispatch_calls_def handler_matches_def\<close>)
qed

lemma hchain_update_other:
  "hchain mem p hs \<Longrightarrow> a \<notin> set hs \<Longrightarrow> hchain (mem(a := v)) p hs"
  by (induction hs arbitrary: p) auto

lemma register_all_chain:
  assumes "hchain (hmem r) (handlers r) hs0"
    and "distinct (as @ hs0)" and "0 \<notin> set as"
    and "\<forall>a \<in> set as. h_source (hmem r a) \<noteq> 0 \<and> h_handler (hmem r a) \<noteq> 0"
  shows "\<exists>r'. register_all as r = Some r' \<and>
     hchain (hmem r') (handlers r') (rev as @ hs0) \<and>
     (\<forall>a. hmem r' a = (hmem r a)\<lparr>h_next := h_next (hmem r' a)\<rparr>)"
  using assms
proof (induction as arbitrary: r hs0)
  case Nil
  then show ?case by simp
next
  case (Cons a as)
  let ?r = "r\<lparr>hmem := (hmem r)(a := (hmem r a)\<lparr>h_next := handlers r\<rparr>), handlers := a\<rparr>"
  from Cons.prems have add: "event_handler_add a r = (0, ?r)"
    by (simp add: event_handler_add_def)
  from Cons.prems have a: "a \<noteq> 0" "a \<notin> set hs0" "a \<notin> set as" by auto
  have 1: "hchain (hmem ?r) (handlers ?r) (a # hs0)"
    using Cons.prems(1) a by (simp add: hchain_update_other)
  have 2: "distinct (as @ (a # hs0))" using Cons.prems(2) by auto
  have 3: "0 \<notin> set as" using Cons.prems(3) by auto
  have 4: "\<forall>b \<in> set as. h_source (hmem ?r b) \<noteq> 0 \<and> h_handler (hmem ?r b) \<noteq> 0"
    using Cons.prems(4) a by auto
  from Cons.IH[OF 1 2 3 4] obtain r' where r': "register_all as ?r = Some r'"
    and ch: "hchain (hmem r') (handlers r') (rev as @ a # hs0)"
    and same: "\<forall>b. hmem r' b = (hmem ?r b)\<lparr>h_next := h_next (hmem r' b)\<rparr>"
    by blast
  have "\<forall>b. hmem r' b = (hmem r b)\<lparr>h_next := h_next (hmem r' b)\<rparr>"
  proof
    fix b
    from same have "hmem r' b = (hmem ?r b)\<lparr>h_next := h_next (hmem r' b)\<rparr>" ..
    then show "hmem r' b = (hmem r b)\<lparr>h_next := h_next (hmem r' b)\<rparr>"
      by (cases "b = a") simp_all
  qed
  with r' ch add show ?case by simp
qed

lemma dispatch_calls_next_irrelevant:
  assumes "\<forall>a. mem' a = (mem a)\<lparr>h_next := h_next (mem' a)\<rparr>"
  shows "dispatch_calls mem' hs e = dispatch_calls mem hs e"
proof -
  have "h_source (mem' a) = h_source (mem a) \<and> h_mask (mem' a) = h_mask (mem a) \<and>
        h_id (mem' a) = h_id (mem a) \<and> h_handler (mem' a) = h_handler (mem a) \<and>
        h_context (mem' a) = h_context (mem a)" for a
    using assms[rule_format, of a] by (metis event_handler.select_convs event_handler.surjective event_handler.update_convs(1))
  then show ?thesis
    by (simp add: dispatch_calls_def handler_matches_def split: prod.splits)
qed

text \<open>
  C2, as the code has it. \<open>event_handler_add\<close> links a handler at the head of the list and
  \<open>event_run_handlers\<close> walks the list from the head. After registering distinct valid
  handler objects \<open>hs\<close> in this order, an event is passed to exactly the handlers whose
  source is the event's and whose filter matches (mask 0, or event id AND mask equal to
  the registered id), each called with the event's id and value and its own context, in
  the reverse of the registration order: the handler registered last is called first.
\<close>

theorem event_run_handlers_reverse_order:
  assumes "handlers r = 0" and "distinct hs" and "0 \<notin> set hs"
    and "\<forall>a \<in> set hs. h_source (hmem r a) \<noteq> 0 \<and> h_handler (hmem r a) \<noteq> 0"
  shows "dispatch_after_registering hs r ev =
     Some (dispatch_calls (hmem r) (rev hs) (ev_source ev, ev_id ev, ev_val ev))"
proof -
  have 1: "hchain (hmem r) (handlers r) []" using assms(1) by simp
  have 2: "distinct (hs @ [])" using assms(2) by simp
  from register_all_chain[OF 1 2 assms(3,4)] obtain r' where
    r': "register_all hs r = Some r'" and ch: "hchain (hmem r') (handlers r') (rev hs)"
    and same: "\<forall>a. hmem r' a = (hmem r a)\<lparr>h_next := h_next (hmem r' a)\<rparr>"
    by auto
  show ?thesis
    using event_run_handlers_loop_chain[OF ch, of ev "[]"] dispatch_calls_next_irrelevant[OF same]
    by (simp add: dispatch_after_registering_def r' event_run_handlers_def)
qed

theorem event_run_handlers_reverse_order_witness:
  "handlers registry_example = 0 \<and> distinct [1, 2, 3, 4 :: addr] \<and> 0 \<notin> set [1, 2, 3, 4 :: addr] \<and>
   list_all (\<lambda>a. h_source (hmem registry_example a) \<noteq> 0 \<and>
       h_handler (hmem registry_example a) \<noteq> 0) [1, 2, 3, 4] \<and>
   dispatch_after_registering [1, 2, 3, 4] registry_example event_example =
     Some [Handler_call 200 1 10 22, Handler_call 100 1 10 11]"
proof -
  have h: "handlers registry_example = 0" "distinct [1, 2, 3, 4 :: addr]"
    "0 \<notin> set [1, 2, 3, 4 :: addr]"
    "\<forall>a \<in> set [1, 2, 3, 4]. h_source (hmem registry_example a) \<noteq> 0 \<and>
       h_handler (hmem registry_example a) \<noteq> 0"
    by code_simp+
  have d: "dispatch_calls (hmem registry_example) (rev [1, 2, 3, 4])
        (ev_source event_example, ev_id event_example, ev_val event_example) =
      [Handler_call 200 1 10 22, Handler_call 100 1 10 11]"
    by code_simp
  from event_run_handlers_reverse_order[OF h, of event_example] h show ?thesis
    unfolding d by (simp add: list_all_iff)
qed

text \<open>
  C2 as stated fails: two handlers for source 5 without filter, registered at address 1 and
  then at address 2, are called for an event of source 5 in the order 2, 1, and not in
  the order of their registration.
\<close>

theorem event_run_handlers_registration_order_counterexample:
  "dispatch_after_registering [1, 2] registry_example event_example =
     Some [Handler_call 200 1 10 22, Handler_call 100 1 10 11] \<and>
   dispatch_calls (hmem registry_example) [1, 2] (5, 1, 10) =
     [Handler_call 100 1 10 11, Handler_call 200 1 10 22] \<and>
   dispatch_after_registering [1, 2] registry_example event_example \<noteq>
     Some (dispatch_calls (hmem registry_example) [1, 2] (5, 1, 10))"
  by code_simp

section \<open>The event loop\<close>

lemma event_add_ok:
  assumes "event_add source id' val q = (0, q')"
  shows "source \<noteq> 0 \<and> (\<exists>i<MAX_PENDING_EVENTS. ev_source (events_storage q ! i) = 0)"
proof -
  have "- EINVAL \<noteq> (0::int8)" "- ENOMEM \<noteq> (0::int8)" by (simp_all add: EINVAL_def ENOMEM_def)
  with assms show ?thesis
    using find_free_None[of "events_storage q" MAX_PENDING_EVENTS]
    by (auto simp: event_add_def Let_def split: if_splits option.splits)
qed

lemma event_add_all_pending:
  "queue_inv q xs \<Longrightarrow> event_add_all es q = Some q' \<Longrightarrow>
   \<exists>ys. length ys = length es \<and> queue_inv q' (xs @ ys) \<and>
        pending q' (xs @ ys) = pending q xs @ es"
proof (induction es arbitrary: q xs)
  case Nil
  then show ?case by simp
next
  case (Cons e es)
  obtain source id' val where e: "e = (source, id', val)" by (cases e)
  obtain ret q1 where r: "event_add source id' val q = (ret, q1)" by (cases "event_add source id' val q")
  from Cons.prems(2) e r have ret: "ret = 0" and rest: "event_add_all es q1 = Some q'"
    by (auto split: if_splits)
  from event_add_ok[OF r[unfolded ret]] event_add_append[OF Cons.prems(1), of source id' val] r ret
  obtain ev where inv1: "queue_inv q1 (xs @ [ev])"
    and p1: "pending q1 (xs @ [ev]) = pending q xs @ [(source, id', val)]"
    by auto
  from Cons.IH[OF inv1 rest] obtain ys where ys: "length ys = length es"
    "queue_inv q' ((xs @ [ev]) @ ys)" "pending q' ((xs @ [ev]) @ ys) = pending q1 (xs @ [ev]) @ es"
    by blast
  then have "length (ev # ys) = length (e # es) \<and> queue_inv q' (xs @ ev # ys) \<and>
        pending q' (xs @ ev # ys) = pending q xs @ e # es"
    using p1 e by simp
  then show ?case by blast
qed

lemma event_loop_run_once_pop:
  assumes inv: "queue_inv (evq s) (x # xs)"
    and ch: "hchain (hmem (registry s)) (handlers (registry s)) hs"
  shows "\<exists>s'. event_loop_run_once s = Some s' \<and> queue_inv (evq s') xs \<and>
     pending (evq s') xs = pending (evq s) xs \<and>
     registry s' = registry s \<and>
     calls s' = calls s @ dispatch_calls (hmem (registry s)) hs
                  (slot_event (events_storage (evq s)) x) \<and>
     ev_source (events_storage (evq s') ! x) = 0 \<and>
     (\<forall>j. j \<noteq> x \<longrightarrow> events_storage (evq s') ! j = events_storage (evq s) ! j)"
proof -
  let ?q = "evq s"
  let ?st = "events_storage ?q"
  let ?n = "ev_next (?st ! x)"
  from inv have hd: "events ?q = Some x" and x_len: "x < length ?st"
    and rest: "qseg ?st ?n xs None" and x_xs: "x \<notin> set xs" and dist: "distinct xs"
    and len: "length ?st = MAX_PENDING_EVENTS"
    and tl: "events_tail ?q = Some (last (x # xs))"
    and occ: "\<forall>i \<in> set xs. ev_source (?st ! i) \<noteq> 0"
    by (auto simp: queue_inv_def)
  have n_e: "(?n = None) = (xs = [])" using rest by (rule qseg_end_None)
  let ?ev = "(?st ! x)\<lparr>ev_next := None\<rparr>"
  let ?cs = "calls s @ dispatch_calls (hmem (registry s)) hs (slot_event ?st x)"
  have run: "event_run_handlers (registry s) ?ev (calls s) = Some ?cs"
    using event_run_handlers_loop_chain[OF ch, of ?ev "calls s"]
    by (simp add: event_run_handlers_def slot_event_def)
  let ?st' = "?st[x := (?st ! x)\<lparr>ev_next := None, ev_source := 0\<rparr>]"
  let ?q' = "?q\<lparr>events := ?n, events_tail := (if xs = [] then None else events_tail ?q),
                events_storage := ?st'\<rparr>"
  have once: "event_loop_run_once s = Some (s\<lparr>evq := ?q', calls := ?cs\<rparr>)"
    using hd x_len run n_e by (simp add: event_loop_run_once_def Let_def)
  have seg': "qseg ?st' ?n xs None" using rest x_xs by (rule qseg_update_other)
  have same: "?st' ! i = ?st ! i" if "i \<in> set xs" for i
  proof -
    from that x_xs have "i \<noteq> x" by auto
    then show ?thesis by simp
  qed
  have inv': "queue_inv ?q' xs"
    using len dist seg' tl occ same by (auto simp: queue_inv_def)
  have pend: "pending ?q' xs = pending ?q xs"
    using same by (simp add: pending_def slot_event_def)
  show ?thesis
    unfolding once using inv' pend x_len by simp
qed

lemma event_loop_run_n_drain:
  "queue_inv (evq s) xs \<Longrightarrow> hchain (hmem (registry s)) (handlers (registry s)) hs \<Longrightarrow>
   \<exists>s'. event_loop_run_n (length xs) s = Some s' \<and> queue_inv (evq s') [] \<and>
     registry s' = registry s \<and>
     calls s' = calls s @ concat (map (dispatch_calls (hmem (registry s)) hs) (pending (evq s) xs)) \<and>
     (\<forall>i \<in> set xs. ev_source (events_storage (evq s') ! i) = 0) \<and>
     (\<forall>j. j \<notin> set xs \<longrightarrow> events_storage (evq s') ! j = events_storage (evq s) ! j)"
proof (induction xs arbitrary: s)
  case Nil
  then show ?case by (simp add: pending_def)
next
  case (Cons x xs)
  from event_loop_run_once_pop[OF Cons.prems] obtain s1 where
    once: "event_loop_run_once s = Some s1" and inv1: "queue_inv (evq s1) xs"
    and p1: "pending (evq s1) xs = pending (evq s) xs" and r1: "registry s1 = registry s"
    and c1: "calls s1 = calls s @ dispatch_calls (hmem (registry s)) hs
                  (slot_event (events_storage (evq s)) x)"
    and f1: "ev_source (events_storage (evq s1) ! x) = 0"
    and o1: "\<forall>j. j \<noteq> x \<longrightarrow> events_storage (evq s1) ! j = events_storage (evq s) ! j"
    by blast
  have ch1: "hchain (hmem (registry s1)) (handlers (registry s1)) hs"
    using Cons.prems(2) r1 by simp
  from Cons.IH[OF inv1 ch1] obtain s' where
    run: "event_loop_run_n (length xs) s1 = Some s'" and inv': "queue_inv (evq s') []"
    and r': "registry s' = registry s1"
    and c': "calls s' = calls s1 @
        concat (map (dispatch_calls (hmem (registry s1)) hs) (pending (evq s1) xs))"
    and f': "\<forall>i \<in> set xs. ev_source (events_storage (evq s') ! i) = 0"
    and o': "\<forall>j. j \<notin> set xs \<longrightarrow> events_storage (evq s') ! j = events_storage (evq s1) ! j"
    by blast
  have p: "pending (evq s) (x # xs) = slot_event (events_storage (evq s)) x # pending (evq s1) xs"
    using p1 by (simp add: pending_def)
  have fx: "ev_source (events_storage (evq s') ! x) = 0"
  proof -
    from Cons.prems(1) have "x \<notin> set xs" by (simp add: queue_inv_def)
    with o' f1 show ?thesis by simp
  qed
  have o: "\<forall>j. j \<notin> set (x # xs) \<longrightarrow> events_storage (evq s') ! j = events_storage (evq s) ! j"
    using o' o1 by simp
  show ?case
    using once run inv' r' r1 c' c1 f' fx p o by simp
qed

lemma queue_inv_length:
  assumes "queue_inv q xs"
  shows "length xs \<le> MAX_PENDING_EVENTS"
proof -
  from assms have d: "distinct xs" and "qseg (events_storage q) (events q) xs None"
    and len: "length (events_storage q) = MAX_PENDING_EVENTS"
    by (simp_all add: queue_inv_def)
  then have "set xs \<subseteq> {..<MAX_PENDING_EVENTS}"
    using qseg_in_range by fastforce
  then have "card (set xs) \<le> card {..<MAX_PENDING_EVENTS}"
    by (intro card_mono) auto
  with d show ?thesis by (simp add: distinct_card)
qed

text \<open>
  C3. Let the queue hold the events of the slots \<open>xs\<close>, and let the calls of \<open>event_add\<close>
  for the events \<open>es\<close> all return 0, with nothing removed in between. Then there are at
  most \<open>MAX_PENDING_EVENTS\<close> events, and that many rounds of the event loop return, hand
  the earlier events and then \<open>es\<close> to the handlers, each once and in the order of the
  \<open>event_add\<close> calls, and leave the queue empty. The handlers are those of a well-formed
  registry; that they are called for every event in turn is what shows the dispatch.
\<close>

theorem event_loop_fifo:
  assumes "queue_inv (evq s) xs"
    and "hchain (hmem (registry s)) (handlers (registry s)) hs"
    and "event_add_all es (evq s) = Some q'"
  shows "length xs + length es \<le> MAX_PENDING_EVENTS \<and>
    (\<exists>s'. event_loop_run_n (length xs + length es) (s\<lparr>evq := q'\<rparr>) = Some s' \<and>
       calls s' = calls s @
         concat (map (dispatch_calls (hmem (registry s)) hs) (pending (evq s) xs @ es)) \<and>
       events (evq s') = None \<and> events_tail (evq s') = None)"
proof -
  from event_add_all_pending[OF assms(1,3)] obtain ys where ys: "length ys = length es"
    and inv: "queue_inv q' (xs @ ys)" and p: "pending q' (xs @ ys) = pending (evq s) xs @ es"
    by blast
  let ?s = "s\<lparr>evq := q'\<rparr>"
  have 1: "queue_inv (evq ?s) (xs @ ys)" using inv by simp
  have 2: "hchain (hmem (registry ?s)) (handlers (registry ?s)) hs" using assms(2) by simp
  from event_loop_run_n_drain[OF 1 2] obtain s' where
    "event_loop_run_n (length (xs @ ys)) ?s = Some s'" "queue_inv (evq s') []"
    "calls s' = calls ?s @
       concat (map (dispatch_calls (hmem (registry ?s)) hs) (pending (evq ?s) (xs @ ys)))"
    by blast
  then have "event_loop_run_n (length xs + length es) ?s = Some s' \<and>
       calls s' = calls s @
         concat (map (dispatch_calls (hmem (registry s)) hs) (pending (evq s) xs @ es)) \<and>
       events (evq s') = None \<and> events_tail (evq s') = None"
    using ys p by (simp add: queue_inv_def)
  moreover from queue_inv_length[OF inv] ys have "length xs + length es \<le> MAX_PENDING_EVENTS"
    by simp
  ultimately show ?thesis by blast
qed

theorem event_loop_fifo_witness:
  "queue_inv (evq system_example) [] \<and>
   hchain (hmem (registry system_example)) (handlers (registry system_example)) [4, 3, 2, 1] \<and>
   event_add_all [(5, 1, 10), (6, 0x12, 11), (5, 0x13, 12)] (evq system_example) \<noteq> None \<and>
   (\<exists>s'. event_loop_run_n 3
           (system_example\<lparr>evq := the (event_add_all [(5, 1, 10), (6, 0x12, 11), (5, 0x13, 12)]
                                         (evq system_example))\<rparr>) = Some s' \<and>
         calls s' = [Handler_call 200 1 10 22, Handler_call 100 1 10 11,
                     Handler_call 400 0x12 11 44,
                     Handler_call 300 0x13 12 33, Handler_call 200 0x13 12 22,
                     Handler_call 100 0x13 12 11] \<and>
         events (evq s') = None \<and> events_tail (evq s') = None)"
proof -
  have h1: "queue_inv (evq system_example) []" by code_simp
  have h2: "hchain (hmem (registry system_example)) (handlers (registry system_example)) [4, 3, 2, 1]"
    by code_simp
  have h3: "event_add_all [(5, 1, 10), (6, 0x12, 11), (5, 0x13, 12)] (evq system_example) \<noteq> None"
    by code_simp
  then have h3': "event_add_all [(5, 1, 10), (6, 0x12, 11), (5, 0x13, 12)] (evq system_example) =
     Some (the (event_add_all [(5, 1, 10), (6, 0x12, 11), (5, 0x13, 12)] (evq system_example)))"
    by simp
  have c: "calls system_example @
      concat (map (dispatch_calls (hmem (registry system_example)) [4, 3, 2, 1])
        (pending (evq system_example) [] @ [(5, 1, 10), (6, 0x12, 11), (5, 0x13, 12)])) =
      [Handler_call 200 1 10 22, Handler_call 100 1 10 11,
       Handler_call 400 0x12 11 44,
       Handler_call 300 0x13 12 33, Handler_call 200 0x13 12 22, Handler_call 100 0x13 12 11]"
    by code_simp
  have l: "length ([]::nat list) +
      length [(5, 1, 10), (6, 0x12, 11), (5 :: addr, 0x13 :: u8, 12 :: u32)] = 3"
    by simp
  from event_loop_fifo[OF h1 h2 h3', THEN conjunct2] h1 h2 h3 show ?thesis
    unfolding c l by blast
qed

section \<open>State changes of the door controller\<close>

lemma state_update_same: "state dc = s \<Longrightarrow> dc\<lparr>state := s\<rparr> = dc"
  by (cases dc) simp

lemma door_ctrl_set_state_same:
  "state dc = s \<Longrightarrow> door_ctrl_set_state c s (dc, q) = Some (dc, q)"
  by (simp add: door_ctrl_set_state_def)

lemma door_ctrl_set_state_plain:
  "s = DOOR_CTRL_TIMEOUT \<or> s = DOOR_CTRL_READING_PIN \<Longrightarrow>
   door_ctrl_set_state c s (dc, q) = Some (dc\<lparr>state := s\<rparr>, q)"
  by (auto simp: door_ctrl_set_state_def)

lemma door_ctrl_set_state_settle:
  assumes "queue_inv q xs" and "wr dc \<noteq> 0" and "state dc \<noteq> s"
    and "s = DOOR_CTRL_IDLE \<or> s = DOOR_CTRL_REJECTED \<or> s = DOOR_CTRL_OPENING \<or> s = DOOR_CTRL_ERROR"
  shows "\<exists>q'. door_ctrl_set_state c s (dc, q) =
            Some (call_driver Timer_deschedule (dc\<lparr>state := s\<rparr>), q') \<and>
     event_remove (wr dc) (DOOR_CTRL_EVENT_IDLE_TIMEOUT c) q = Some (0, q')"
proof -
  from event_remove_queue[OF assms(1,2), of "DOOR_CTRL_EVENT_IDLE_TIMEOUT c"]
  obtain q' where "event_remove (wr dc) (DOOR_CTRL_EVENT_IDLE_TIMEOUT c) q = Some (0, q')"
    by blast
  with assms(3,4) show ?thesis by (auto simp: door_ctrl_set_state_def Let_def)
qed

text \<open>
  Whatever the state and the source, on a well-formed queue the state change returns
  and leaves a well-formed queue.
\<close>

lemma door_ctrl_set_state_returns:
  assumes "queue_inv q xs"
  shows "\<exists>dc' q' ys. door_ctrl_set_state c s (dc, q) = Some (dc', q') \<and> queue_inv q' ys \<and>
     state dc' = s \<and> pin dc' = pin dc \<and> check_key dc' = check_key dc \<and>
     check_context dc' = check_context dc \<and> door_id dc' = door_id dc \<and> wr dc' = wr dc \<and>
     open_status dc' = open_status dc \<and> open_time dc' = open_time dc"
proof (cases "wr dc = 0")
  case True
  then have "event_remove (wr dc) i q = Some (- EINVAL, q)" for i
    by (simp add: event_remove_def)
  with assms show ?thesis
    by (auto simp: door_ctrl_set_state_def Let_def call_driver_def)
next
  case False
  from event_remove_queue[OF assms False, of "DOOR_CTRL_EVENT_IDLE_TIMEOUT c"]
  obtain q' ys where "event_remove (wr dc) (DOOR_CTRL_EVENT_IDLE_TIMEOUT c) q = Some (0, q')"
    "queue_inv q' ys" by blast
  with assms show ?thesis
    by (auto simp: door_ctrl_set_state_def Let_def call_driver_def)
qed

text \<open>
  C10. Whatever the state of the controller (\<open>IDLE\<close>, \<open>READING_PIN\<close> or a settle state),
  \<open>on_event\<close> answers an idle-timeout event by leaving the controller in \<open>TIMEOUT\<close> and
  by starting the timeout sequence of the buzzer; nothing else changes.
\<close>

theorem on_event_idle_timeout:
  assumes "case_labels_distinct c"
  shows "on_event c (DOOR_CTRL_EVENT_IDLE_TIMEOUT c) val (dc, q) =
     Some (call_driver (Trigger_start_seq Buzzer_trigger buzzer_timeout_seq)
             (dc\<lparr>state := DOOR_CTRL_TIMEOUT\<rparr>), q)"
proof -
  from assms have "DOOR_CTRL_EVENT_IDLE_TIMEOUT c \<noteq> DOOR_CTRL_EVENT_STATE_CHANGED c"
    "DOOR_CTRL_EVENT_IDLE_TIMEOUT c \<noteq> DOOR_CTRL_EVENT_BUZZER_FINISHED c"
    by (auto simp: case_labels_distinct_def)
  then have "on_event c (DOOR_CTRL_EVENT_IDLE_TIMEOUT c) val (dc, q) = door_ctrl_timeout c (dc, q)"
    by (simp add: on_event_def)
  also have "\<dots> = Some (call_driver (Trigger_start_seq Buzzer_trigger buzzer_timeout_seq)
             (dc\<lparr>state := DOOR_CTRL_TIMEOUT\<rparr>), q)"
    by (cases "state dc = DOOR_CTRL_TIMEOUT")
       (simp_all add: door_ctrl_timeout_def door_ctrl_set_state_def state_update_same)
  finally show ?thesis .
qed

theorem on_event_idle_timeout_witness:
  "case_labels_distinct consts_example \<and>
   on_event consts_example (DOOR_CTRL_EVENT_IDLE_TIMEOUT consts_example) 0
       (door_example, queue_init) =
     Some (call_driver (Trigger_start_seq Buzzer_trigger buzzer_timeout_seq)
             (door_example\<lparr>state := DOOR_CTRL_TIMEOUT\<rparr>), queue_init) \<and>
   state door_example = DOOR_CTRL_IDLE \<and>
   on_event consts_example (DOOR_CTRL_EVENT_IDLE_TIMEOUT consts_example) 0
       (door_example\<lparr>state := DOOR_CTRL_OPENING\<rparr>, queue_init) =
     Some (call_driver (Trigger_start_seq Buzzer_trigger buzzer_timeout_seq)
             (door_example\<lparr>state := DOOR_CTRL_TIMEOUT\<rparr>), queue_init)"
proof -
  have h: "case_labels_distinct consts_example" by code_simp
  have i: "state door_example = DOOR_CTRL_IDLE" by code_simp
  from on_event_idle_timeout[OF h, of 0 door_example queue_init]
    on_event_idle_timeout[OF h, of 0 "door_example\<lparr>state := DOOR_CTRL_OPENING\<rparr>" queue_init]
    h i
  show ?thesis by simp
qed

text \<open>
  C1, as the code has it. Entering \<open>OPENING\<close>, \<open>REJECTED\<close>, \<open>ERROR\<close> or \<open>IDLE\<close> from another
  state calls \<open>timer_deschedule\<close> on the idle timer and removes every idle-timeout event
  of this door from the queue; the other events stay, in their order. Entering \<open>TIMEOUT\<close>
  changes the state only: no call to the timer, and the queue is left as it is.
\<close>

theorem door_ctrl_set_state_cancels:
  assumes "queue_inv q xs" and "wr dc \<noteq> 0" and "state dc \<noteq> s"
  shows "(s = DOOR_CTRL_OPENING \<or> s = DOOR_CTRL_REJECTED \<or> s = DOOR_CTRL_ERROR \<or>
          s = DOOR_CTRL_IDLE \<longrightarrow>
          (\<exists>q'. door_ctrl_set_state c s (dc, q) =
                  Some (call_driver Timer_deschedule (dc\<lparr>state := s\<rparr>), q') \<and>
             queue_inv q' (filter (\<lambda>i. \<not> ev_matches (events_storage q) (wr dc)
                                          (DOOR_CTRL_EVENT_IDLE_TIMEOUT c) i) xs) \<and>
             pending q' (filter (\<lambda>i. \<not> ev_matches (events_storage q) (wr dc)
                                          (DOOR_CTRL_EVENT_IDLE_TIMEOUT c) i) xs) =
               filter (\<lambda>(source, id', val).
                         \<not> (source = wr dc \<and> id' = DOOR_CTRL_EVENT_IDLE_TIMEOUT c))
                 (pending q xs))) \<and>
         (s = DOOR_CTRL_TIMEOUT \<longrightarrow>
          door_ctrl_set_state c s (dc, q) = Some (dc\<lparr>state := s\<rparr>, q))"
proof (intro conjI impI)
  assume s: "s = DOOR_CTRL_OPENING \<or> s = DOOR_CTRL_REJECTED \<or> s = DOOR_CTRL_ERROR \<or>
          s = DOOR_CTRL_IDLE"
  then have s': "s = DOOR_CTRL_IDLE \<or> s = DOOR_CTRL_REJECTED \<or> s = DOOR_CTRL_OPENING \<or>
          s = DOOR_CTRL_ERROR" by blast
  from door_ctrl_set_state_settle[OF assms s', of c] obtain q' where
    1: "door_ctrl_set_state c s (dc, q) = Some (call_driver Timer_deschedule (dc\<lparr>state := s\<rparr>), q')"
    and 2: "event_remove (wr dc) (DOOR_CTRL_EVENT_IDLE_TIMEOUT c) q = Some (0, q')"
    by blast
  from event_remove_queue[OF assms(1,2), of "DOOR_CTRL_EVENT_IDLE_TIMEOUT c"] 1 2
  show "\<exists>q'. door_ctrl_set_state c s (dc, q) =
                  Some (call_driver Timer_deschedule (dc\<lparr>state := s\<rparr>), q') \<and>
             queue_inv q' (filter (\<lambda>i. \<not> ev_matches (events_storage q) (wr dc)
                                          (DOOR_CTRL_EVENT_IDLE_TIMEOUT c) i) xs) \<and>
             pending q' (filter (\<lambda>i. \<not> ev_matches (events_storage q) (wr dc)
                                          (DOOR_CTRL_EVENT_IDLE_TIMEOUT c) i) xs) =
               filter (\<lambda>(source, id', val).
                         \<not> (source = wr dc \<and> id' = DOOR_CTRL_EVENT_IDLE_TIMEOUT c))
                 (pending q xs)"
    by auto
next
  assume "s = DOOR_CTRL_TIMEOUT"
  then show "door_ctrl_set_state c s (dc, q) = Some (dc\<lparr>state := s\<rparr>, q)"
    by (simp add: door_ctrl_set_state_plain)
qed

theorem door_ctrl_set_state_cancels_witness:
  "queue_inv queue_stale [0, 1, 2] \<and> wr door_example \<noteq> 0 \<and>
   state door_example \<noteq> DOOR_CTRL_REJECTED \<and>
   pending queue_stale [0, 1, 2] = [(6, 1, 7), (5, 0x82, 0), (5, 1, 3)] \<and>
   (\<exists>q'. door_ctrl_set_state consts_example DOOR_CTRL_REJECTED (door_example, queue_stale) =
            Some (call_driver Timer_deschedule (door_example\<lparr>state := DOOR_CTRL_REJECTED\<rparr>), q') \<and>
         queue_inv q' [0, 2] \<and> pending q' [0, 2] = [(6, 1, 7), (5, 1, 3)])"
proof -
  have h: "queue_inv queue_stale [0, 1, 2]" "wr door_example \<noteq> 0"
    "state door_example \<noteq> DOOR_CTRL_REJECTED"
    by code_simp+
  have p: "pending queue_stale [0, 1, 2] = [(6, 1, 7), (5, 0x82, 0), (5, 1, 3)]" by code_simp
  have f: "filter (\<lambda>i. \<not> ev_matches (events_storage queue_stale) (wr door_example)
             (DOOR_CTRL_EVENT_IDLE_TIMEOUT consts_example) i) [0, 1, 2] = [0, 2]"
    by code_simp
  have g: "filter (\<lambda>(source, id', val).
             \<not> (source = wr door_example \<and> id' = DOOR_CTRL_EVENT_IDLE_TIMEOUT consts_example))
           [(6, 1, 7), (5, 0x82, 0), (5, 1, 3 :: u32)] = [(6, 1, 7), (5, 1, 3)]"
    by code_simp
  from door_ctrl_set_state_cancels[OF h, of consts_example, THEN conjunct1] h p
  show ?thesis unfolding f p g by blast
qed

text \<open>
  C1 as stated fails for \<open>TIMEOUT\<close>: a controller in \<open>READING_PIN\<close> with an idle-timeout
  event of its own in the queue enters \<open>TIMEOUT\<close>; the event is still in the queue and
  the timer was not descheduled.
\<close>

theorem door_ctrl_set_state_timeout_counterexample:
  "state (door_example\<lparr>state := DOOR_CTRL_READING_PIN\<rparr>) \<noteq> DOOR_CTRL_TIMEOUT \<and>
   queue_inv queue_stale [0, 1, 2] \<and>
   pending queue_stale [0, 1, 2] =
     [(6, 1, 7), (wr door_example, DOOR_CTRL_EVENT_IDLE_TIMEOUT consts_example, 0), (5, 1, 3)] \<and>
   door_ctrl_set_state consts_example DOOR_CTRL_TIMEOUT
       (door_example\<lparr>state := DOOR_CTRL_READING_PIN\<rparr>, queue_stale) =
     Some (door_example\<lparr>state := DOOR_CTRL_TIMEOUT\<rparr>, queue_stale) \<and>
   driver_calls (door_example\<lparr>state := DOOR_CTRL_TIMEOUT\<rparr>) = []"
proof -
  have "queue_inv queue_stale [0, 1, 2]" by code_simp
  moreover have "pending queue_stale [0, 1, 2] =
     [(6, 1, 7), (wr door_example, DOOR_CTRL_EVENT_IDLE_TIMEOUT consts_example, 0), (5, 1, 3)]"
    by code_simp
  ultimately show ?thesis
    by (simp add: door_ctrl_set_state_def door_example_def)
qed

section \<open>Credential checks\<close>

lemma door_ctrl_set_open_fields:
  "state (door_ctrl_set_open source status dc) = state dc \<and>
   pin (door_ctrl_set_open source status dc) = pin dc \<and>
   wr (door_ctrl_set_open source status dc) = wr dc"
  by (simp add: door_ctrl_set_open_def Let_def call_driver_def)

lemma door_ctrl_reject_returns:
  assumes "queue_inv q xs"
  shows "\<exists>dc' q' ys. door_ctrl_reject c (dc, q) = Some (dc', q') \<and> queue_inv q' ys \<and>
     state dc' = DOOR_CTRL_REJECTED \<and> pin dc' = pin dc"
proof -
  from door_ctrl_set_state_returns[OF assms, of c DOOR_CTRL_REJECTED dc]
  obtain dc1 q' ys where "door_ctrl_set_state c DOOR_CTRL_REJECTED (dc, q) = Some (dc1, q')"
    "queue_inv q' ys" "state dc1 = DOOR_CTRL_REJECTED" "pin dc1 = pin dc" by blast
  then show ?thesis by (auto simp: door_ctrl_reject_def call_driver_def)
qed

lemma door_ctrl_open_returns:
  assumes "queue_inv q xs"
  shows "\<exists>dc' q' ys. door_ctrl_open c (dc, q) = Some (dc', q') \<and> queue_inv q' ys \<and>
     state dc' = DOOR_CTRL_OPENING \<and> pin dc' = pin dc"
proof -
  from door_ctrl_set_state_returns[OF assms, of c DOOR_CTRL_OPENING dc]
  obtain dc1 q' ys where "door_ctrl_set_state c DOOR_CTRL_OPENING (dc, q) = Some (dc1, q')"
    "queue_inv q' ys" "state dc1 = DOOR_CTRL_OPENING" "pin dc1 = pin dc" by blast
  then show ?thesis
    by (auto simp: door_ctrl_open_def call_driver_def door_ctrl_set_open_fields)
qed

lemma ENOENT_nonzero: "- ENOENT \<noteq> (0::int8)"
  by (simp add: ENOENT_def)

lemma on_event_reader:
  assumes "case_labels_distinct c"
    and "event = WIEGAND_READER_EVENT_KEY c \<or> event = WIEGAND_READER_EVENT_CARD c"
  shows "event \<noteq> DOOR_CTRL_EVENT_STATE_CHANGED c \<and> event \<noteq> DOOR_CTRL_EVENT_BUZZER_FINISHED c \<and>
     event \<noteq> DOOR_CTRL_EVENT_IDLE_TIMEOUT c \<and> event \<noteq> WIEGAND_READER_ERROR c"
  using assms by (auto simp: case_labels_distinct_def)

lemma on_event_idle_card:
  assumes "case_labels_distinct c" and "state dc = DOOR_CTRL_IDLE"
  shows "on_event c (WIEGAND_READER_EVENT_CARD c) val (dc, q) =
     (if door_ctrl_check_key dc (DOOR_CTRL_CARD c) val = 0
      then door_ctrl_open c (dc, q) else door_ctrl_reject c (dc, q))"
proof -
  from assms(1) have "WIEGAND_READER_EVENT_CARD c \<noteq> WIEGAND_READER_EVENT_KEY c"
    by (auto simp: case_labels_distinct_def)
  with on_event_reader[OF assms(1), of "WIEGAND_READER_EVENT_CARD c"] assms(2)
  show ?thesis by (simp add: on_event_def)
qed

lemma on_event_reading_card:
  assumes "case_labels_distinct c" and "state dc = DOOR_CTRL_READING_PIN"
  shows "on_event c (WIEGAND_READER_EVENT_CARD c) val (dc, q) =
     (case (if door_ctrl_check_key (dc\<lparr>pin := pin dc XOR val\<rparr>) (DOOR_CTRL_CARD_AND_PIN c)
                 (pin dc XOR val) = 0
            then door_ctrl_open c (dc\<lparr>pin := pin dc XOR val\<rparr>, q)
            else door_ctrl_reject c (dc\<lparr>pin := pin dc XOR val\<rparr>, q)) of
        None \<Rightarrow> None
      | Some (dc', q') \<Rightarrow> Some (dc'\<lparr>pin := 0\<rparr>, q'))"
  using on_event_reader[OF assms(1), of "WIEGAND_READER_EVENT_CARD c"] assms(2)
  by (simp add: on_event_def Let_def)

lemma on_event_reading_enter:
  assumes "case_labels_distinct c" and "state dc = DOOR_CTRL_READING_PIN"
    and "ucast val = WIEGAND_KEY_ENTER c"
  shows "on_event c (WIEGAND_READER_EVENT_KEY c) val (dc, q) =
     (case (if door_ctrl_check_key dc (DOOR_CTRL_PIN c) (pin dc) = 0
            then door_ctrl_open c (dc, q)
            else door_ctrl_reject c (dc, q)) of
        None \<Rightarrow> None
      | Some (dc', q') \<Rightarrow> Some (dc'\<lparr>pin := 0\<rparr>, q'))"
proof -
  from assms(1) have "WIEGAND_READER_EVENT_KEY c \<noteq> WIEGAND_READER_EVENT_CARD c"
    by (auto simp: case_labels_distinct_def)
  with on_event_reader[OF assms(1), of "WIEGAND_READER_EVENT_KEY c"] assms(2,3)
  show ?thesis by (simp add: on_event_def Let_def)
qed

text \<open>
  C8. On a controller without validator (\<open>check_key\<close> is \<open>NULL\<close>) every credential check
  returns \<open>-ENOENT\<close>, which is not 0, and each event that asks for a check leaves the
  controller in \<open>REJECTED\<close>: a card in \<open>IDLE\<close>, a card in \<open>READING_PIN\<close>, and the key
  \<open>ENTER\<close> in \<open>READING_PIN\<close>.
\<close>

theorem check_key_missing_rejects:
  assumes "check_key dc = None" and "case_labels_distinct c" and "queue_inv q xs"
  shows "door_ctrl_check_key dc type key = - ENOENT \<and> door_ctrl_check_key dc type key \<noteq> 0 \<and>
    (state dc = DOOR_CTRL_IDLE \<longrightarrow>
       (\<exists>dc' q'. on_event c (WIEGAND_READER_EVENT_CARD c) val (dc, q) = Some (dc', q') \<and>
                 state dc' = DOOR_CTRL_REJECTED)) \<and>
    (state dc = DOOR_CTRL_READING_PIN \<longrightarrow>
       (\<exists>dc' q'. on_event c (WIEGAND_READER_EVENT_CARD c) val (dc, q) = Some (dc', q') \<and>
                 state dc' = DOOR_CTRL_REJECTED)) \<and>
    (state dc = DOOR_CTRL_READING_PIN \<and> ucast val = WIEGAND_KEY_ENTER c \<longrightarrow>
       (\<exists>dc' q'. on_event c (WIEGAND_READER_EVENT_KEY c) val (dc, q) = Some (dc', q') \<and>
                 state dc' = DOOR_CTRL_REJECTED))"
proof -
  have ck: "door_ctrl_check_key d t k = - ENOENT" if "check_key d = None" for d t k
    using that by (simp add: door_ctrl_check_key_def)
  have nz: "door_ctrl_check_key d t k \<noteq> 0" if "check_key d = None" for d t k
    using ck[OF that] ENOENT_nonzero by simp
  have rej: "\<exists>dc' q'. door_ctrl_reject c (d, q) = Some (dc', q') \<and>
      state (dc'\<lparr>pin := 0\<rparr>) = DOOR_CTRL_REJECTED \<and> state dc' = DOOR_CTRL_REJECTED" for d
    using door_ctrl_reject_returns[OF assms(3), of c d] by auto
  have 1: "state dc = DOOR_CTRL_IDLE \<longrightarrow>
       (\<exists>dc' q'. on_event c (WIEGAND_READER_EVENT_CARD c) val (dc, q) = Some (dc', q') \<and>
                 state dc' = DOOR_CTRL_REJECTED)"
    using rej[of dc] nz[OF assms(1)] by (auto simp: on_event_idle_card[OF assms(2)])
  have "check_key (dc\<lparr>pin := pin dc XOR val\<rparr>) = None" using assms(1) by simp
  from nz[OF this] have 2: "state dc = DOOR_CTRL_READING_PIN \<longrightarrow>
       (\<exists>dc' q'. on_event c (WIEGAND_READER_EVENT_CARD c) val (dc, q) = Some (dc', q') \<and>
                 state dc' = DOOR_CTRL_REJECTED)"
    using rej[of "dc\<lparr>pin := pin dc XOR val\<rparr>"]
    by (auto simp: on_event_reading_card[OF assms(2)])
  have 3: "state dc = DOOR_CTRL_READING_PIN \<and> ucast val = WIEGAND_KEY_ENTER c \<longrightarrow>
       (\<exists>dc' q'. on_event c (WIEGAND_READER_EVENT_KEY c) val (dc, q) = Some (dc', q') \<and>
                 state dc' = DOOR_CTRL_REJECTED)"
    using rej[of dc] nz[OF assms(1)] by (auto simp: on_event_reading_enter[OF assms(2)])
  from ck[OF assms(1)] nz[OF assms(1)] 1 2 3 show ?thesis by blast
qed

theorem check_key_missing_rejects_witness:
  "check_key door_nokey = None \<and> case_labels_distinct consts_example \<and>
   queue_inv queue_stale [0, 1, 2] \<and>
   door_ctrl_check_key door_nokey 2 42 = - ENOENT \<and>
   state door_nokey = DOOR_CTRL_IDLE \<and>
   (\<exists>dc' q'. on_event consts_example (WIEGAND_READER_EVENT_CARD consts_example) 42
                (door_nokey, queue_stale) = Some (dc', q') \<and>
             state dc' = DOOR_CTRL_REJECTED) \<and>
   state (door_nokey\<lparr>state := DOOR_CTRL_READING_PIN\<rparr>) = DOOR_CTRL_READING_PIN \<and>
   ucast (11 :: u32) = WIEGAND_KEY_ENTER consts_example \<and>
   (\<exists>dc' q'. on_event consts_example (WIEGAND_READER_EVENT_KEY consts_example) 11
                (door_nokey\<lparr>state := DOOR_CTRL_READING_PIN\<rparr>, queue_stale) = Some (dc', q') \<and>
             state dc' = DOOR_CTRL_REJECTED)"
proof -
  have h: "check_key door_nokey = None" "case_labels_distinct consts_example"
    "queue_inv queue_stale [0, 1, 2]"
    by (simp add: door_nokey_def, code_simp, code_simp)
  have h': "check_key (door_nokey\<lparr>state := DOOR_CTRL_READING_PIN\<rparr>) = None"
    by (simp add: door_nokey_def)
  have s: "state door_nokey = DOOR_CTRL_IDLE"
    by (simp add: door_nokey_def door_example_def)
  have e: "ucast (11 :: u32) = WIEGAND_KEY_ENTER consts_example"
    by (simp add: consts_example_def)
  from check_key_missing_rejects[OF h, of 2 42 42] s
    check_key_missing_rejects[OF h' h(2,3), of 2 42 11] h e
  show ?thesis by simp
qed

section \<open>The open status\<close>

text \<open>
  C7. With only the two reason bits in use, the door is open exactly when the reader
  reason or the button reason is set. \<open>door_ctrl_set_open\<close> sets or clears the bit of its
  source and leaves the other; it calls the triggers only when the open status changes:
  relay and LED are set on when it becomes open, their release over \<open>open_time\<close> is started
  when it stops being open, and no trigger is called otherwise.
\<close>

theorem door_ctrl_set_open_edge:
  assumes "open_status dc \<in> {0, 1, 2, 3}"
    and "source = DOOR_OPEN_FROM_READER \<or> source = DOOR_OPEN_FROM_BUTTON"
    and "dc' = door_ctrl_set_open source status dc"
  shows "door_open dc = (reader_reason dc \<or> button_reason dc) \<and>
    door_open dc' = (reader_reason dc' \<or> button_reason dc') \<and>
    (source = DOOR_OPEN_FROM_READER \<longrightarrow>
       reader_reason dc' = (status \<noteq> 0) \<and> button_reason dc' = button_reason dc) \<and>
    (source = DOOR_OPEN_FROM_BUTTON \<longrightarrow>
       button_reason dc' = (status \<noteq> 0) \<and> reader_reason dc' = reader_reason dc) \<and>
    open_status dc' \<in> {0, 1, 2, 3} \<and>
    driver_calls dc' =
      driver_calls dc @
        (if door_open dc = door_open dc' then []
         else if door_open dc'
           then [Trigger_set Open_trigger 1, Trigger_set Led_trigger 1]
           else [Trigger_start Open_trigger (open_time dc), Trigger_start Led_trigger (open_time dc)])"
proof -
  from assms(1) consider "open_status dc = 0" | "open_status dc = 1" | "open_status dc = 2"
    | "open_status dc = 3" by auto
  then show ?thesis
  proof cases
    case 1
    with assms(2,3) show ?thesis
      by (cases "status = 0")
         (auto simp: door_ctrl_set_open_def Let_def call_driver_def BIT_def
           DOOR_OPEN_FROM_READER_def DOOR_OPEN_FROM_BUTTON_def reader_reason_def
           button_reason_def door_open_def)
  next
    case 2
    with assms(2,3) show ?thesis
      by (cases "status = 0")
         (auto simp: door_ctrl_set_open_def Let_def call_driver_def BIT_def
           DOOR_OPEN_FROM_READER_def DOOR_OPEN_FROM_BUTTON_def reader_reason_def
           button_reason_def door_open_def)
  next
    case 3
    with assms(2,3) show ?thesis
      by (cases "status = 0")
         (auto simp: door_ctrl_set_open_def Let_def call_driver_def BIT_def
           DOOR_OPEN_FROM_READER_def DOOR_OPEN_FROM_BUTTON_def reader_reason_def
           button_reason_def door_open_def)
  next
    case 4
    with assms(2,3) show ?thesis
      by (cases "status = 0")
         (auto simp: door_ctrl_set_open_def Let_def call_driver_def BIT_def
           DOOR_OPEN_FROM_READER_def DOOR_OPEN_FROM_BUTTON_def reader_reason_def
           button_reason_def door_open_def)
  qed
qed

theorem door_ctrl_set_open_edge_witness:
  "open_status door_example \<in> {0, 1, 2, 3} \<and>
   button_reason (on_open_button_changed 1 door_example) \<and>
   door_open (on_open_button_changed 1 door_example) \<and>
   driver_calls (on_open_button_changed 1 door_example) =
     [Trigger_set Open_trigger 1, Trigger_set Led_trigger 1]"
proof -
  let ?d1 = "door_ctrl_set_open DOOR_OPEN_FROM_BUTTON 1 door_example"
  have h0: "open_status door_example \<in> {0, 1, 2, 3}" by (simp add: door_example_def)
  have b: "DOOR_OPEN_FROM_BUTTON = DOOR_OPEN_FROM_READER \<or> DOOR_OPEN_FROM_BUTTON = DOOR_OPEN_FROM_BUTTON"
    by simp
  have e0: "\<not> door_open door_example" "driver_calls door_example = []"
    by (simp_all add: door_open_def door_example_def)
  note t = door_ctrl_set_open_edge[OF h0 b refl, of 1]
  from t have btn: "button_reason ?d1" by simp
  from t have "door_open ?d1 = (reader_reason ?d1 \<or> button_reason ?d1)" by blast
  with btn have op: "door_open ?d1" by simp
  from t have "driver_calls ?d1 =
      driver_calls door_example @
        (if door_open door_example = door_open ?d1 then []
         else if door_open ?d1
           then [Trigger_set Open_trigger 1, Trigger_set Led_trigger 1]
           else [Trigger_start Open_trigger (open_time door_example),
                 Trigger_start Led_trigger (open_time door_example)])"
    by blast
  with op e0 have c: "driver_calls ?d1 = [Trigger_set Open_trigger 1, Trigger_set Led_trigger 1]"
    by simp
  from h0 btn op c show ?thesis by (simp add: on_open_button_changed_def)
qed

section \<open>PIN entry\<close>

lemma F_mask_u32: "(0xF :: u32) = mask 4" by (simp add: mask_eq_exp_minus_1)

lemma F_mask_u8: "(0xF :: u8) = mask 4" by (simp add: mask_eq_exp_minus_1)

lemma shift_keeps_low_nibble_clear: "push_bit 4 (p::u32) AND NOT 0xF = push_bit 4 p"
  unfolding F_mask_u32 by (rule bit_eqI) (auto simp: bit_simps)

lemma ucast_low_nibble: "ucast ((ucast (d::u32) :: u8) AND 0xF) = d AND 0xF"
  unfolding F_mask_u32 F_mask_u8 by (rule bit_eqI) (auto simp: bit_simps)

lemma digit_low_nibble: "(d::u32) \<le> 9 \<Longrightarrow> d AND 0xF = d"
proof -
  assume "d \<le> 9"
  then have "d < 2 ^ 4" by (simp add: word_le_nat_alt word_less_nat_alt)
  then have "d AND mask 4 = d" by (rule less_mask_eq)
  then show ?thesis by (simp add: F_mask_u32)
qed

lemma seed_all_ones: "(- 1 AND NOT 0xF :: u32) = push_bit 4 (- 1)"
  unfolding F_mask_u32 by (rule bit_eqI) (auto simp: bit_simps)

lemma digit_not_key_code:
  assumes "(d::u32) \<le> 9" and "(k::u8) > 9"
  shows "d \<noteq> ucast k" and "ucast d \<noteq> k"
proof -
  from assms(1) have d: "unat d \<le> 9" by (simp add: word_le_nat_alt)
  from assms(2) have k: "unat k > 9" by (simp add: word_less_nat_alt)
  have "unat (ucast k :: u32) = take_bit 32 (unat k)" by (simp add: unsigned_ucast_eq)
  also have "\<dots> = unat k" proof -
    have "unat k < 2 ^ 8" using unsigned_less[of k, where 'a = nat] by simp
    then show ?thesis by (simp add: take_bit_nat_eq_self_iff)
  qed
  finally show "d \<noteq> ucast k" using d k by auto
  have "unat (ucast d :: u8) = take_bit 8 (unat d)" by (simp add: unsigned_ucast_eq)
  also have "\<dots> = unat d" using d by (simp add: take_bit_nat_eq_self_iff)
  finally show "ucast d \<noteq> k" using d k by auto
qed

lemma ucast_key_roundtrip: "(ucast (ucast (k::u8) :: u32) :: u8) = k"
  by (rule ucast_up_ucast_id) (simp add: is_up)

lemma on_event_idle_digit:
  assumes "case_labels_distinct c" and "state dc = DOOR_CTRL_IDLE"
    and "val \<noteq> ucast (WIEGAND_KEY_ENTER c)" and "val \<noteq> ucast (WIEGAND_KEY_ESC c)"
  shows "on_event c (WIEGAND_READER_EVENT_KEY c) val (dc, q) =
     Some (call_driver (Timer_schedule_in IDLE_TIMEOUT)
             (dc\<lparr>pin := (- 1 AND NOT 0xF) OR (val AND 0xF), state := DOOR_CTRL_READING_PIN\<rparr>), q)"
  using on_event_reader[OF assms(1), of "WIEGAND_READER_EVENT_KEY c"] assms(2,3,4)
  by (simp add: on_event_def door_ctrl_set_state_plain)

lemma on_event_reading_digit:
  assumes "case_labels_distinct c" and "state dc = DOOR_CTRL_READING_PIN"
    and "ucast val \<noteq> WIEGAND_KEY_ENTER c" and "ucast val \<noteq> WIEGAND_KEY_ESC c"
  shows "on_event c (WIEGAND_READER_EVENT_KEY c) val (dc, q) =
     Some (call_driver (Timer_schedule_in IDLE_TIMEOUT)
             (dc\<lparr>pin := (push_bit 4 (pin dc) AND NOT 0xF) OR ucast ((ucast val :: u8) AND 0xF)\<rparr>), q)"
proof -
  from assms(1) have "WIEGAND_READER_EVENT_KEY c \<noteq> WIEGAND_READER_EVENT_CARD c"
    by (auto simp: case_labels_distinct_def)
  with on_event_reader[OF assms(1), of "WIEGAND_READER_EVENT_KEY c"] assms(2,3,4)
  show ?thesis by (simp add: on_event_def Let_def)
qed

lemma on_events_append:
  "on_events c (es @ es') w =
     (case on_events c es w of None \<Rightarrow> None | Some w' \<Rightarrow> on_events c es' w')"
  by (induction es arbitrary: w) (auto split: option.splits)

lemma on_events_digits:
  assumes "case_labels_distinct c" and "9 < WIEGAND_KEY_ENTER c" and "9 < WIEGAND_KEY_ESC c"
  shows "state dc = DOOR_CTRL_READING_PIN \<Longrightarrow> \<forall>x \<in> set ds. x \<le> 9 \<Longrightarrow>
     \<exists>dc1. on_events c (map (Pair (WIEGAND_READER_EVENT_KEY c)) ds) (dc, q) = Some (dc1, q) \<and>
       state dc1 = DOOR_CTRL_READING_PIN \<and>
       pin dc1 = foldl (\<lambda>p d. push_bit 4 p OR d) (pin dc) ds \<and>
       check_key dc1 = check_key dc \<and> door_id dc1 = door_id dc \<and>
       check_context dc1 = check_context dc"
proof (induction ds arbitrary: dc)
  case Nil
  then show ?case by simp
next
  case (Cons d ds)
  from Cons.prems have d: "d \<le> 9" by simp
  let ?dc = "call_driver (Timer_schedule_in IDLE_TIMEOUT) (dc\<lparr>pin := push_bit 4 (pin dc) OR d\<rparr>)"
  have p: "(push_bit 4 (pin dc) AND NOT 0xF) OR ucast ((ucast d :: u8) AND 0xF) =
      push_bit 4 (pin dc) OR d"
    by (simp only: shift_keeps_low_nibble_clear ucast_low_nibble digit_low_nibble[OF d])
  have step: "on_event c (WIEGAND_READER_EVENT_KEY c) d (dc, q) = Some (?dc, q)"
    using on_event_reading_digit[OF assms(1) Cons.prems(1) digit_not_key_code(2)[OF d assms(2)]
        digit_not_key_code(2)[OF d assms(3)], of q]
    unfolding p .
  have st: "state ?dc = DOOR_CTRL_READING_PIN" using Cons.prems(1) by (simp add: call_driver_def)
  from Cons.IH[OF st] Cons.prems(2) obtain dc1 where
    "on_events c (map (Pair (WIEGAND_READER_EVENT_KEY c)) ds) (?dc, q) = Some (dc1, q)"
    "state dc1 = DOOR_CTRL_READING_PIN"
    "pin dc1 = foldl (\<lambda>p d. push_bit 4 p OR d) (pin ?dc) ds"
    "check_key dc1 = check_key ?dc" "door_id dc1 = door_id ?dc"
    "check_context dc1 = check_context ?dc"
    by auto
  with step show ?case by (simp add: call_driver_def)
qed

lemma on_events_pin_entry:
  assumes "case_labels_distinct c" and "9 < WIEGAND_KEY_ENTER c" and "9 < WIEGAND_KEY_ESC c"
    and "state dc = DOOR_CTRL_IDLE" and "d \<le> 9" and "\<forall>x \<in> set ds. x \<le> 9"
  shows "\<exists>dc1. on_events c (map (Pair (WIEGAND_READER_EVENT_KEY c)) (d # ds)) (dc, q) = Some (dc1, q) \<and>
       state dc1 = DOOR_CTRL_READING_PIN \<and> pin dc1 = pin_of_digits (d # ds) \<and>
       check_key dc1 = check_key dc \<and> door_id dc1 = door_id dc \<and>
       check_context dc1 = check_context dc"
proof -
  let ?dc = "call_driver (Timer_schedule_in IDLE_TIMEOUT)
     (dc\<lparr>pin := push_bit 4 (- 1) OR d, state := DOOR_CTRL_READING_PIN\<rparr>)"
  have p: "(- 1 AND NOT 0xF) OR (d AND 0xF) = push_bit 4 (- 1) OR d"
    by (simp only: seed_all_ones digit_low_nibble[OF assms(5)])
  have step: "on_event c (WIEGAND_READER_EVENT_KEY c) d (dc, q) = Some (?dc, q)"
    using on_event_idle_digit[OF assms(1,4) digit_not_key_code(1)[OF assms(5,2)] digit_not_key_code(1)[OF assms(5,3)], of q]
    unfolding p .
  have st: "state ?dc = DOOR_CTRL_READING_PIN" by (simp add: call_driver_def)
  from on_events_digits[OF assms(1,2,3) st assms(6), of q] step
  show ?thesis by (auto simp: call_driver_def pin_of_digits_def)
qed

lemma pin_seed: "(- 1 AND NOT 0xF :: u32) = 0xFFFFFFF0"
  by simp

lemma pin_of_digits_1234: "pin_of_digits [1, 2, 3, 4] = 0xFFFF1234"
  by code_simp

text \<open>
  C4. In \<open>IDLE\<close> a digit key sets the PIN to the digit under all-ones nibbles, enters
  \<open>READING_PIN\<close> and arms the idle timer; further digits are shifted in from the right, so
  that after the digits \<open>d # ds\<close> the PIN is \<open>pin_of_digits (d # ds)\<close>; the key \<open>ENTER\<close> then
  calls the validator with the type PIN and this value, and the controller ends in
  \<open>OPENING\<close> when the validator returns 0 and in \<open>REJECTED\<close> otherwise, with the PIN cleared.
  For the digits 1, 2, 3, 4 the value is \<open>0xFFFF1234\<close>.
\<close>

theorem pin_entry_round_trip:
  assumes "case_labels_distinct c" and "9 < WIEGAND_KEY_ENTER c" and "9 < WIEGAND_KEY_ESC c"
    and "state dc = DOOR_CTRL_IDLE" and "check_key dc = Some f" and "queue_inv q xs"
    and "d \<le> 9" and "\<forall>x \<in> set ds. x \<le> 9"
  shows "on_event c (WIEGAND_READER_EVENT_KEY c) d (dc, q) =
      Some (call_driver (Timer_schedule_in IDLE_TIMEOUT)
              (dc\<lparr>pin := 0xFFFFFFF0 OR d, state := DOOR_CTRL_READING_PIN\<rparr>), q) \<and>
    (\<exists>dc1. on_events c (map (Pair (WIEGAND_READER_EVENT_KEY c)) (d # ds)) (dc, q) = Some (dc1, q) \<and>
       state dc1 = DOOR_CTRL_READING_PIN \<and> pin dc1 = pin_of_digits (d # ds)) \<and>
    (\<exists>dc' q'. on_events c (map (Pair (WIEGAND_READER_EVENT_KEY c)) (d # ds) @
                  [(WIEGAND_READER_EVENT_KEY c, ucast (WIEGAND_KEY_ENTER c))]) (dc, q) =
                Some (dc', q') \<and>
       state dc' = (if f (door_id dc) (DOOR_CTRL_PIN c) (pin_of_digits (d # ds)) (check_context dc) = 0
                    then DOOR_CTRL_OPENING else DOOR_CTRL_REJECTED) \<and>
       pin dc' = 0) \<and>
    pin_of_digits [1, 2, 3, 4] = 0xFFFF1234"
proof -
  have p: "(- 1 AND NOT 0xF) OR (d AND 0xF) = 0xFFFFFFF0 OR d"
    by (simp only: pin_seed digit_low_nibble[OF assms(7)])
  have first: "on_event c (WIEGAND_READER_EVENT_KEY c) d (dc, q) =
      Some (call_driver (Timer_schedule_in IDLE_TIMEOUT)
              (dc\<lparr>pin := 0xFFFFFFF0 OR d, state := DOOR_CTRL_READING_PIN\<rparr>), q)"
    using on_event_idle_digit[OF assms(1,4) digit_not_key_code(1)[OF assms(7,2)] digit_not_key_code(1)[OF assms(7,3)], of q]
    unfolding p .
  from on_events_pin_entry[OF assms(1,2,3,4,7,8), of q] obtain dc1 where
    run: "on_events c (map (Pair (WIEGAND_READER_EVENT_KEY c)) (d # ds)) (dc, q) = Some (dc1, q)"
    and st: "state dc1 = DOOR_CTRL_READING_PIN" and pn: "pin dc1 = pin_of_digits (d # ds)"
    and ck: "check_key dc1 = check_key dc" and di: "door_id dc1 = door_id dc"
    and cc: "check_context dc1 = check_context dc"
    by blast
  let ?ok = "f (door_id dc) (DOOR_CTRL_PIN c) (pin_of_digits (d # ds)) (check_context dc) = 0"
  have chk: "door_ctrl_check_key dc1 (DOOR_CTRL_PIN c) (pin dc1) =
      f (door_id dc) (DOOR_CTRL_PIN c) (pin_of_digits (d # ds)) (check_context dc)"
    using ck di cc pn assms(5) by (simp add: door_ctrl_check_key_def)
  have enter: "on_event c (WIEGAND_READER_EVENT_KEY c) (ucast (WIEGAND_KEY_ENTER c)) (dc1, q) =
     (case (if ?ok then door_ctrl_open c (dc1, q) else door_ctrl_reject c (dc1, q)) of
        None \<Rightarrow> None
      | Some (dc', q') \<Rightarrow> Some (dc'\<lparr>pin := 0\<rparr>, q'))"
    using on_event_reading_enter[OF assms(1) st ucast_key_roundtrip, of q] chk by simp
  have last: "\<exists>dc' q'. on_event c (WIEGAND_READER_EVENT_KEY c) (ucast (WIEGAND_KEY_ENTER c)) (dc1, q) =
       Some (dc', q') \<and>
       state dc' = (if ?ok then DOOR_CTRL_OPENING else DOOR_CTRL_REJECTED) \<and> pin dc' = 0"
  proof (cases ?ok)
    case True
    from door_ctrl_open_returns[OF assms(6), of c dc1] obtain d' q' where
      "door_ctrl_open c (dc1, q) = Some (d', q')" "state d' = DOOR_CTRL_OPENING" by blast
    with True show ?thesis unfolding enter by simp
  next
    case False
    from door_ctrl_reject_returns[OF assms(6), of c dc1] obtain d' q' where
      "door_ctrl_reject c (dc1, q) = Some (d', q')" "state d' = DOOR_CTRL_REJECTED" by blast
    with False show ?thesis unfolding enter by simp
  qed
  have "\<exists>dc' q'. on_events c (map (Pair (WIEGAND_READER_EVENT_KEY c)) (d # ds) @
                  [(WIEGAND_READER_EVENT_KEY c, ucast (WIEGAND_KEY_ENTER c))]) (dc, q) =
                Some (dc', q') \<and>
       state dc' = (if ?ok then DOOR_CTRL_OPENING else DOOR_CTRL_REJECTED) \<and> pin dc' = 0"
  proof -
    from last obtain dc' q' where
      l: "on_event c (WIEGAND_READER_EVENT_KEY c) (ucast (WIEGAND_KEY_ENTER c)) (dc1, q) =
         Some (dc', q')"
      "state dc' = (if ?ok then DOOR_CTRL_OPENING else DOOR_CTRL_REJECTED)" "pin dc' = 0"
      by blast
    have "on_events c (map (Pair (WIEGAND_READER_EVENT_KEY c)) (d # ds) @
                  [(WIEGAND_READER_EVENT_KEY c, ucast (WIEGAND_KEY_ENTER c))]) (dc, q) =
          Some (dc', q')"
      unfolding on_events_append run using l(1) by simp
    with l(2,3) show ?thesis by blast
  qed
  with first run st pn pin_of_digits_1234 show ?thesis by blast
qed

theorem pin_entry_round_trip_witness:
  "case_labels_distinct consts_example \<and> 9 < WIEGAND_KEY_ENTER consts_example \<and>
   9 < WIEGAND_KEY_ESC consts_example \<and> state door_example = DOOR_CTRL_IDLE \<and>
   queue_inv queue_stale [0, 1, 2] \<and> list_all (\<lambda>x. x \<le> 9) [1, 2, 3, 4 :: u32] \<and>
   (\<exists>dc' q'. on_events consts_example
        [(WIEGAND_READER_EVENT_KEY consts_example, 1), (WIEGAND_READER_EVENT_KEY consts_example, 2),
         (WIEGAND_READER_EVENT_KEY consts_example, 3), (WIEGAND_READER_EVENT_KEY consts_example, 4),
         (WIEGAND_READER_EVENT_KEY consts_example, 11)] (door_example, queue_stale) = Some (dc', q') \<and>
      state dc' = DOOR_CTRL_OPENING \<and> pin dc' = 0) \<and>
   (\<exists>dc' q'. on_events consts_example
        [(WIEGAND_READER_EVENT_KEY consts_example, 1), (WIEGAND_READER_EVENT_KEY consts_example, 2),
         (WIEGAND_READER_EVENT_KEY consts_example, 3), (WIEGAND_READER_EVENT_KEY consts_example, 5),
         (WIEGAND_READER_EVENT_KEY consts_example, 11)] (door_example, queue_stale) = Some (dc', q') \<and>
      state dc' = DOOR_CTRL_REJECTED \<and> pin dc' = 0)"
proof -
  let ?f = "\<lambda>door type key context. if type = (1::u8) \<and> key = (0xFFFF1234::u32) then 0 else - 1 :: int8"
  have h: "case_labels_distinct consts_example" "9 < WIEGAND_KEY_ENTER consts_example"
    "9 < WIEGAND_KEY_ESC consts_example" "state door_example = DOOR_CTRL_IDLE"
    by code_simp+
  have ck: "check_key door_example = Some ?f" by (simp add: door_example_def)
  have qi: "queue_inv queue_stale [0, 1, 2]" by code_simp
  have d: "(1::u32) \<le> 9" "\<forall>x \<in> set [2, 3, 4 :: u32]. x \<le> 9" "\<forall>x \<in> set [2, 3, 5 :: u32]. x \<le> 9"
    by simp_all
  have e: "ucast (WIEGAND_KEY_ENTER consts_example) = (11 :: u32)"
    "DOOR_CTRL_PIN consts_example = 1"
    by (simp_all add: consts_example_def)
  have p: "pin_of_digits [1, 2, 3, 4] = 0xFFFF1234" "pin_of_digits [1, 2, 3, 5] = 0xFFFF1235"
    by code_simp+
  note a = pin_entry_round_trip[OF h ck qi d(1,2), THEN conjunct2, THEN conjunct2, THEN conjunct1]
  note b = pin_entry_round_trip[OF h ck qi d(1,3), THEN conjunct2, THEN conjunct2, THEN conjunct1]
  from a have a': "\<exists>dc' q'. on_events consts_example
        [(WIEGAND_READER_EVENT_KEY consts_example, 1), (WIEGAND_READER_EVENT_KEY consts_example, 2),
         (WIEGAND_READER_EVENT_KEY consts_example, 3), (WIEGAND_READER_EVENT_KEY consts_example, 4),
         (WIEGAND_READER_EVENT_KEY consts_example, 11)] (door_example, queue_stale) = Some (dc', q') \<and>
      state dc' = DOOR_CTRL_OPENING \<and> pin dc' = 0"
    unfolding p e by simp
  from b have b': "\<exists>dc' q'. on_events consts_example
        [(WIEGAND_READER_EVENT_KEY consts_example, 1), (WIEGAND_READER_EVENT_KEY consts_example, 2),
         (WIEGAND_READER_EVENT_KEY consts_example, 3), (WIEGAND_READER_EVENT_KEY consts_example, 5),
         (WIEGAND_READER_EVENT_KEY consts_example, 11)] (door_example, queue_stale) = Some (dc', q') \<and>
      state dc' = DOOR_CTRL_REJECTED \<and> pin dc' = 0"
    unfolding p e by simp
  from h qi a' b' show ?thesis by simp
qed

section \<open>Access records\<close>

text \<open>
  C6. The record written for the card string \<open>1234\<close> and the doors \<open>0b0101\<close> has the key
  1234 in little-endian bytes and the permission byte \<open>0x52\<close> (type card in the low bits,
  the doors in the high four); reading this record gives the type \<open>card\<close>, the key string
  \<open>1234\<close> and the doors 5.
\<close>

theorem access_record_card_round_trip:
  "write_set_access_record_query
      \<lparr>arg_index = 0, arg_pin = None, arg_card = Some ''1234'', arg_doors = Some 0b0101\<rparr> =
     Inr \<lparr>cmd_index = [0, 0], cmd_record = [0xD2, 0x04, 0, 0, 0x52]\<rparr> \<and>
   le32toh [0xD2, 0x04, 0, 0, 0x52] = 1234 \<and>
   (0x52 :: u8) AND 0x3 = ACCESS_TYPE_CARD \<and> drop_bit 4 (0x52 :: u8) = 0b0101 \<and>
   read_get_access_record_response [0xD2, 0x04, 0, 0, 0x52] [] =
     (0, [Blobmsg_string ''type'' ''card'', Blobmsg_string ''key'' ''1234'',
          Blobmsg_u32 ''doors'' 5])"
  by code_simp

end
